theory Spec2Isabelle
  imports Main "HOL-Library.Word"
begin

unbundle bit_operations_syntax

section \<open>LinuxContigPhysPages.c: data model\<close>

text \<open>
  The C file keeps three function-local statics (\<^verbatim>\<open>blockArray\<close>, \<^verbatim>\<open>pageSize\<close>,
  \<^verbatim>\<open>cacheFriendlyFactor\<close>) and talks to the operating system through
  \<^verbatim>\<open>sysconf\<close>, \<^verbatim>\<open>malloc\<close>, \<^verbatim>\<open>fopen\<close>/\<^verbatim>\<open>fread\<close>/\<^verbatim>\<open>fclose\<close> on
  \<^verbatim>\<open>/proc/self/pagemap\<close>, \<^verbatim>\<open>posix_memalign\<close>, \<^verbatim>\<open>mlock\<close>, \<^verbatim>\<open>munlock\<close> and
  \<^verbatim>\<open>free\<close>. The statics are a record that is passed in and returned; the answers
  of the operating system are a record of oracles; every call of an allocation, pinning
  or introspection primitive is logged as an event, in program order.

  \<^verbatim>\<open>uint32_t\<close> is \<open>32 word\<close> (arithmetic wraps), \<^verbatim>\<open>int\<close> counters are \<open>int\<close>
  (none of them can leave the 32-bit range, see \<open>attempt_budget_range\<close>), an address
  is a natural number with \<open>0\<close> for the null pointer.
\<close>

type_synonym u32 = "32 word"
type_synonym addr = nat

text \<open>The statics of \<^verbatim>\<open>allocate_phys_mem\<close> (lines 61-63). The table is indexed by
  \<^verbatim>\<open>int\<close>, as in the source; that every index used lies in \<open>0 ..< MAX_ATTEMPT\<close> is
  proved, not assumed.\<close>

record statics =
  blockArray :: "int \<Rightarrow> addr"
  pageSize :: u32
  cacheFriendlyFactor :: u32

text \<open>What the operating system answers during one call.
  \<^item> \<open>sc_pagesize\<close>, \<open>sc_avphys_pages\<close>: the two \<^verbatim>\<open>sysconf\<close> values as stored into
    \<^verbatim>\<open>uint32_t\<close> variables.
  \<^item> \<open>malloc_garbage\<close>: the (uninitialised) contents of the table that the first call
    obtains from \<^verbatim>\<open>malloc\<close>.
  \<^item> \<open>fopen_ok\<close>, \<open>fclose_ok\<close>: whether the pagemap stream opens and closes.
  \<^item> \<open>memalign t\<close>: what \<^verbatim>\<open>posix_memalign(&blockArray[t], ...)\<close> stores in the slot at
    trial \<open>t\<close>. \<open>Some p\<close>: it stores \<open>p\<close>. \<open>None\<close>: it fails and stores nothing, which
    is what it does on Linux; the source ignores its return value and looks at the slot.
  \<^item> \<open>mlock_ret t\<close>: the return value of \<^verbatim>\<open>mlock\<close> at trial \<open>t\<close>.
  \<^item> \<open>pagemap t k\<close>: the low 32 bits of the 8-byte buffer after the \<open>k\<close>-th
    \<^verbatim>\<open>fread\<close> of trial \<open>t\<close>.\<close>

record os =
  sc_pagesize :: u32
  sc_avphys_pages :: u32
  malloc_garbage :: "int \<Rightarrow> addr"
  fopen_ok :: bool
  fclose_ok :: bool
  memalign :: "int \<Rightarrow> addr option"
  mlock_ret :: "int \<Rightarrow> int"
  pagemap :: "int \<Rightarrow> int \<Rightarrow> u32"

text \<open>The log of primitive calls: each call is logged with the table slot it was made
  for, so an event is a pair of a slot and a call.\<close>

datatype call =
    Posix_memalign "addr option"
  | Mlock addr u32
  | Fread int
  | Munlock addr u32
  | Free addr

type_synonym event = "int \<times> call"

fun is_release :: "call \<Rightarrow> bool" where
  "is_release (Munlock p n) = True"
| "is_release (Free p) = True"
| "is_release c = False"

text \<open>How a call ends: \<^verbatim>\<open>return physBlock\<close>, \<^verbatim>\<open>exit(-1)\<close> after a failed
  \<^verbatim>\<open>fclose\<close> (line 194), or the division by zero of line 81 when \<^verbatim>\<open>sysconf\<close> gave
  page size 0.\<close>

datatype outcome = Returned addr | Exited | Trapped

section \<open>Constants and size arithmetic\<close>

definition CACHE_GRANULARITY :: u32 where
  "CACHE_GRANULARITY = 1024 * 1024"

definition MAX_ATTEMPT :: int where
  "MAX_ATTEMPT = 1024"

text \<open>Lines 80-81. \<^verbatim>\<open>2*pageSize\<close> is an unsigned 32-bit product.\<close>

definition derive_cacheFriendlyFactor :: "u32 \<Rightarrow> u32" where
  "derive_cacheFriendlyFactor ps =
     (if CACHE_GRANULARITY < 2 * ps then 1 else CACHE_GRANULARITY div ps - 1)"

text \<open>Lines 90-101: the three adjustments of \<^verbatim>\<open>allocSize\<close>.\<close>

definition normalize_size :: "u32 \<Rightarrow> u32 \<Rightarrow> u32" where
  "normalize_size ps allocSize =
     (let a1 = (if allocSize AND (ps - 1) \<noteq> 0
                then (allocSize AND NOT (ps - 1)) + ps else allocSize);
          a2 = (if a1 < CACHE_GRANULARITY then CACHE_GRANULARITY else a1);
          a3 = (if a2 < ps then ps else a2)
      in a3)"

text \<open>Lines 104-109: the unsigned expression, stored into the \<^verbatim>\<open>int numTrials\<close>, then
  capped.\<close>

definition attempt_budget :: "u32 \<Rightarrow> u32 \<Rightarrow> u32 \<Rightarrow> int" where
  "attempt_budget avail ps allocSize =
     (let numTrials = sint ((avail div (allocSize div ps)) * 3 div 4)
      in if numTrials > MAX_ATTEMPT then MAX_ATTEMPT else numTrials)"


section \<open>One trial\<close>

text \<open>The inner \<^verbatim>\<open>for (page=0; page<allocPages; ++page)\<close> loop, lines 152-174. It is
  left by the \<^verbatim>\<open>goto error_exit\<close> of line 171, or by the \<^verbatim>\<open>break\<close> of line 161 or
  the loop condition, with the values \<^verbatim>\<open>page\<close> and \<^verbatim>\<open>pageGaps\<close> have then.\<close>

datatype walk_exit = Goto_error_exit | Loop_left int int

fun emit :: "event \<Rightarrow> walk_exit \<times> event list \<Rightarrow> walk_exit \<times> event list" where
  "emit e (r, es) = (r, e # es)"

function walk :: "os \<Rightarrow> u32 \<Rightarrow> int \<Rightarrow> int \<Rightarrow> int \<Rightarrow> u32 \<Rightarrow> int \<Rightarrow> walk_exit \<times> event list" where
  "walk os cff allocPages trial page prev_page pageGaps =
     (if page < allocPages then
        (let curr_page = pagemap os trial page in
         if page \<noteq> 0 then
           (if curr_page \<noteq> prev_page + 1 then
              (if cff AND ((prev_page + 1) OR curr_page) \<noteq> 0
               then (Loop_left page pageGaps, [(trial, Fread page)])
               else emit (trial, Fread page)
                      (walk os cff allocPages trial (page + 1) curr_page (pageGaps + 1)))
            else emit (trial, Fread page)
                   (walk os cff allocPages trial (page + 1) curr_page pageGaps))
         else
           (if curr_page = 0
            then (Goto_error_exit, [(trial, Fread page)])
            else emit (trial, Fread page)
                   (walk os cff allocPages trial (page + 1) curr_page pageGaps)))
      else (Loop_left page pageGaps, []))"
  by pat_completeness auto
termination
  by (relation "measure (\<lambda>(os, cff, allocPages, trial, page, prev_page, pageGaps).
        nat (allocPages - page))") auto

text \<open>The body of the outer loop up to line 174: allocate, pin, walk. The verdict names
  the way the body continues: the \<^verbatim>\<open>break\<close> of line 141, the \<^verbatim>\<open>break\<close> of line 147,
  the \<^verbatim>\<open>goto\<close> of line 171, \<^verbatim>\<open>page != allocPages\<close> at line 176, or
  \<^verbatim>\<open>page == allocPages\<close> with the gap count.\<close>

datatype verdict = Alloc_failed | Pin_failed | No_permission | Disqualified | Qualified int

definition attempt ::
  "os \<Rightarrow> u32 \<Rightarrow> u32 \<Rightarrow> u32 \<Rightarrow> int \<Rightarrow> (int \<Rightarrow> addr) \<Rightarrow> verdict \<times> (int \<Rightarrow> addr) \<times> event list" where
  "attempt os ps cff allocSize trial tbl =
     (let allocPages = sint (allocSize div ps);
          tbl1 = (case memalign os trial of Some p \<Rightarrow> tbl(trial := p) | None \<Rightarrow> tbl);
          e1 = [(trial, Posix_memalign (memalign os trial))];
          e2 = e1 @ [(trial, Mlock (tbl1 trial) allocSize)]
      in if tbl1 trial = 0 then (Alloc_failed, tbl1, e1)
         else if mlock_ret os trial \<noteq> 0 then (Pin_failed, tbl1, e2)
         else (case walk os cff allocPages trial 0 0 0 of
                 (Goto_error_exit, rs) \<Rightarrow> (No_permission, tbl1, e2 @ rs)
               | (Loop_left page pageGaps, rs) \<Rightarrow>
                   (if page = allocPages then Qualified pageGaps else Disqualified,
                    tbl1, e2 @ rs)))"

section \<open>The search loop and the cleanup\<close>

text \<open>The locals of \<^verbatim>\<open>allocate_phys_mem\<close> that the outer loop changes, with the table
  and the log.\<close>

record search =
  table :: "int \<Rightarrow> addr"
  physBlock :: addr
  bestBlock :: int
  bestGapCount :: int
  trace :: "event list"

text \<open>Lines 119-187. The result is the value of \<^verbatim>\<open>trial\<close> at the label
  \<^verbatim>\<open>error_exit\<close> and the locals there; a \<^verbatim>\<open>break\<close> and the \<^verbatim>\<open>goto\<close> arrive at the
  same place.\<close>

function trials :: "os \<Rightarrow> u32 \<Rightarrow> u32 \<Rightarrow> u32 \<Rightarrow> int \<Rightarrow> int \<Rightarrow> search \<Rightarrow> int \<times> search" where
  "trials os ps cff allocSize numTrials trial s =
     (if trial < numTrials then
        (case attempt os ps cff allocSize trial (table s) of
           (v, tbl1, es) \<Rightarrow>
             (let s1 = s\<lparr>table := tbl1, trace := trace s @ es\<rparr> in
              case v of
                Alloc_failed \<Rightarrow> (trial, s1)
              | Pin_failed \<Rightarrow> (trial, s1)
              | No_permission \<Rightarrow> (trial, s1)
              | Disqualified \<Rightarrow> trials os ps cff allocSize numTrials (trial + 1) s1
              | Qualified pageGaps \<Rightarrow>
                  (if bestBlock s1 = - 1 \<or> pageGaps < bestGapCount s1 then
                     (let s2 = s1\<lparr>physBlock := tbl1 trial, bestBlock := trial,
                                   bestGapCount := pageGaps\<rparr>
                      in if pageGaps = 0 then (trial, s2)
                         else trials os ps cff allocSize numTrials (trial + 1) s2)
                   else trials os ps cff allocSize numTrials (trial + 1) s1)))
      else (trial, s))"
  by pat_completeness auto
termination
  by (relation "measure (\<lambda>(os, ps, cff, allocSize, numTrials, trial, s).
        nat (numTrials - trial))") auto

text \<open>Lines 204-215: \<^verbatim>\<open>for (int unwind = trial; unwind >= 0; --unwind)\<close>. The return
  value of \<^verbatim>\<open>munlock\<close> is ignored there.\<close>

function cleanup :: "(int \<Rightarrow> addr) \<Rightarrow> int \<Rightarrow> u32 \<Rightarrow> int \<Rightarrow> event list" where
  "cleanup tbl best allocSize unwind =
     (if unwind \<ge> 0 then
        (if unwind \<noteq> best \<and> tbl unwind \<noteq> 0
         then [(unwind, Munlock (tbl unwind) allocSize), (unwind, Free (tbl unwind))]
         else [])
        @ cleanup tbl best allocSize (unwind - 1)
      else [])"
  by pat_completeness auto
termination
  by (relation "measure (\<lambda>(tbl, best, allocSize, unwind). nat (unwind + 1))") auto

section \<open>allocate\_phys\_mem and free\_phys\_mem\<close>

text \<open>Lines 77-85. The division of line 81 is evaluated when
  \<^verbatim>\<open>CACHE_GRANULARITY < 2*pageSize\<close> is false, which it is for page size 0. The
  \<^verbatim>\<open>malloc\<close> of line 84 is taken to succeed (the source does not test it); what the new
  table holds is up to the environment.\<close>

definition init_traps :: "os \<Rightarrow> statics \<Rightarrow> bool" where
  "init_traps os st = (pageSize st = 0 \<and> sc_pagesize os = 0)"

definition lazy_init :: "os \<Rightarrow> statics \<Rightarrow> statics" where
  "lazy_init os st =
     (if pageSize st = 0
      then \<lparr>blockArray = malloc_garbage os, pageSize = sc_pagesize os,
            cacheFriendlyFactor = derive_cacheFriendlyFactor (sc_pagesize os)\<rparr>
      else st)"

text \<open>The statics of a process that has not called \<^verbatim>\<open>allocate_phys_mem\<close> yet: C
  zero-initialises them.\<close>

definition fresh_statics :: statics where
  "fresh_statics = \<lparr>blockArray = (\<lambda>i. 0), pageSize = 0, cacheFriendlyFactor = 0\<rparr>"

text \<open>The values a call works with: the normalised \<^verbatim>\<open>allocSize\<close>, \<^verbatim>\<open>numTrials\<close>, and
  the table after line 88.\<close>

definition call_allocSize :: "os \<Rightarrow> statics \<Rightarrow> u32 \<Rightarrow> u32" where
  "call_allocSize os st allocSize = normalize_size (pageSize (lazy_init os st)) allocSize"

definition call_numTrials :: "os \<Rightarrow> statics \<Rightarrow> u32 \<Rightarrow> int" where
  "call_numTrials os st allocSize =
     attempt_budget (sc_avphys_pages os) (pageSize (lazy_init os st))
       (call_allocSize os st allocSize)"

definition call_table :: "os \<Rightarrow> statics \<Rightarrow> int \<Rightarrow> addr" where
  "call_table os st = (blockArray (lazy_init os st))(0 := 0)"

text \<open>Lines 111-187: the loop runs only when the pagemap stream opened.\<close>

definition run_trials :: "os \<Rightarrow> statics \<Rightarrow> u32 \<Rightarrow> int \<times> search" where
  "run_trials os st allocSize =
     (let st1 = lazy_init os st;
          s0 = \<lparr>table = call_table os st, physBlock = 0, bestBlock = - 1,
                bestGapCount = - 1, trace = []\<rparr>
      in if fopen_ok os
         then trials os (pageSize st1) (cacheFriendlyFactor st1)
                (call_allocSize os st allocSize) (call_numTrials os st allocSize) 0 s0
         else (0, s0))"

text \<open>The whole function: the outcome, the log of the call, and the statics it leaves
  behind.\<close>

definition allocate_phys_mem :: "os \<Rightarrow> statics \<Rightarrow> u32 \<Rightarrow> outcome \<times> event list \<times> statics" where
  "allocate_phys_mem os st allocSize =
     (if init_traps os st then (Trapped, [], st)
      else
        (case run_trials os st allocSize of
           (trial, s) \<Rightarrow>
             (let st2 = (lazy_init os st)\<lparr>blockArray := table s\<rparr> in
              if fopen_ok os \<and> \<not> fclose_ok os then (Exited, trace s, st2)
              else
                (let unwind = (if trial = call_numTrials os st allocSize
                               then trial - 1 else trial)
                 in (Returned (physBlock s),
                     trace s @ cleanup (table s) (bestBlock s)
                                 (call_allocSize os st allocSize) unwind,
                     st2)))))"

text \<open>\<^verbatim>\<open>free\<close> of the C library on a set of live blocks: nothing happens for the null
  pointer, a live block is released, anything else is undefined behaviour (\<open>None\<close>).\<close>

definition c_free :: "addr set \<Rightarrow> addr \<Rightarrow> addr set option" where
  "c_free live p = (if p = 0 then Some live
                    else if p \<in> live then Some (live - {p}) else None)"

text \<open>Lines 240-251. \<open>munlock_ret\<close> is the answer of \<^verbatim>\<open>munlock\<close>; the result is the
  return value, the live blocks afterwards and the calls made, or \<open>None\<close> when the call
  of \<^verbatim>\<open>free\<close> is undefined.\<close>

definition free_phys_mem ::
  "(addr \<Rightarrow> u32 \<Rightarrow> int) \<Rightarrow> addr set \<Rightarrow> addr \<Rightarrow> u32 \<Rightarrow> (int \<times> addr set \<times> call list) option" where
  "free_phys_mem munlock_ret live block allocSize =
     (let err = munlock_ret block allocSize in
      case c_free live block of
        None \<Rightarrow> None
      | Some live' \<Rightarrow> Some (err, live', [Munlock block allocSize, Free block]))"

section \<open>Vocabulary for the statements\<close>

subsection \<open>One trial, seen from outside\<close>

text \<open>The address in slot \<open>i\<close> once trial \<open>i\<close> has called \<^verbatim>\<open>posix_memalign\<close>, the
  verdict of trial \<open>i\<close> and the calls it makes, read off \<open>attempt\<close>. They depend on
  the table only through slot \<open>i\<close> (lemmas \<open>verdict_of_local\<close>, \<open>events_of_local\<close>),
  and no trial before \<open>i\<close> writes slot \<open>i\<close>, so they can be taken at the table the
  loop starts with.\<close>

definition slot_ptr :: "os \<Rightarrow> (int \<Rightarrow> addr) \<Rightarrow> int \<Rightarrow> addr" where
  "slot_ptr os tbl i = (case memalign os i of Some p \<Rightarrow> p | None \<Rightarrow> tbl i)"

definition verdict_of :: "os \<Rightarrow> u32 \<Rightarrow> u32 \<Rightarrow> u32 \<Rightarrow> (int \<Rightarrow> addr) \<Rightarrow> int \<Rightarrow> verdict" where
  "verdict_of os ps cff allocSize tbl i = fst (attempt os ps cff allocSize i tbl)"

definition events_of :: "os \<Rightarrow> u32 \<Rightarrow> u32 \<Rightarrow> u32 \<Rightarrow> (int \<Rightarrow> addr) \<Rightarrow> int \<Rightarrow> event list" where
  "events_of os ps cff allocSize tbl i = snd (snd (attempt os ps cff allocSize i tbl))"

subsection \<open>The loop invariant\<close>

text \<open>The locals after the body of trial \<open>t\<close> ran without selecting it, and after it
  selected trial \<open>t\<close> with gap count \<open>g\<close> (lines 178-180).\<close>

definition attempted_state :: "os \<Rightarrow> u32 \<Rightarrow> u32 \<Rightarrow> u32 \<Rightarrow> int \<Rightarrow> search \<Rightarrow> search" where
  "attempted_state os ps cff sz t s =
     s\<lparr>table := (table s)(t := slot_ptr os (table s) t),
       trace := trace s @ events_of os ps cff sz (table s) t\<rparr>"

definition selected_state :: "os \<Rightarrow> u32 \<Rightarrow> u32 \<Rightarrow> u32 \<Rightarrow> int \<Rightarrow> int \<Rightarrow> search \<Rightarrow> search" where
  "selected_state os ps cff sz t g s =
     (attempted_state os ps cff sz t s)\<lparr>physBlock := slot_ptr os (table s) t,
        bestBlock := t, bestGapCount := g\<rparr>"

text \<open>While the loop goes on, a held candidate has a positive gap count.\<close>

definition gap_inv :: "search \<Rightarrow> bool" where
  "gap_inv s \<longleftrightarrow> (bestBlock s \<noteq> - 1 \<longrightarrow> 0 < bestGapCount s)"

text \<open>\<open>cand\<close>: trial \<open>i\<close>, one of the trials \<open>t\<close> to \<open>lst\<close> below \<open>n\<close>, qualifies with \<open>g\<close>
  gaps. Running the loop from trial \<open>t\<close> in state \<open>s\<close> to its exit at \<open>lst\<close> in state
  \<open>s'\<close> either keeps the candidate of \<open>s\<close>, which then no trial in between beats, or
  replaces it by the earliest trial in between with the least gap count, which beats
  the candidate of \<open>s\<close>.\<close>

definition cand ::
  "os \<Rightarrow> u32 \<Rightarrow> u32 \<Rightarrow> u32 \<Rightarrow> (int \<Rightarrow> addr) \<Rightarrow> int \<Rightarrow> int \<Rightarrow> int \<Rightarrow> int \<Rightarrow> int \<Rightarrow> bool" where
  "cand os ps cff sz tbl n t lst i g \<longleftrightarrow>
     t \<le> i \<and> i \<le> lst \<and> i < n \<and> verdict_of os ps cff sz tbl i = Qualified g"

definition kept :: "os \<Rightarrow> u32 \<Rightarrow> u32 \<Rightarrow> u32 \<Rightarrow> int \<Rightarrow> int \<Rightarrow> search \<Rightarrow> int \<Rightarrow> search \<Rightarrow> bool" where
  "kept os ps cff sz n t s lst s' \<longleftrightarrow>
     bestBlock s' = bestBlock s \<and> physBlock s' = physBlock s \<and> bestGapCount s' = bestGapCount s
     \<and> (\<forall>i g. cand os ps cff sz (table s) n t lst i g \<longrightarrow>
            bestBlock s \<noteq> - 1 \<and> bestGapCount s \<le> g)"

definition replaced :: "os \<Rightarrow> u32 \<Rightarrow> u32 \<Rightarrow> u32 \<Rightarrow> int \<Rightarrow> int \<Rightarrow> search \<Rightarrow> int \<Rightarrow> search \<Rightarrow> bool" where
  "replaced os ps cff sz n t s lst s' \<longleftrightarrow>
     cand os ps cff sz (table s) n t lst (bestBlock s') (bestGapCount s')
     \<and> physBlock s' = slot_ptr os (table s) (bestBlock s')
     \<and> (bestBlock s \<noteq> - 1 \<longrightarrow> bestGapCount s' < bestGapCount s)
     \<and> (\<forall>i g. cand os ps cff sz (table s) n t lst i g \<longrightarrow>
            bestGapCount s' \<le> g \<and> (g = bestGapCount s' \<longrightarrow> bestBlock s' \<le> i))"

subsection \<open>One call, seen from outside\<close>

text \<open>An environment in which the call returns: \<^verbatim>\<open>sysconf\<close> gives a page size that is
  not 0 and the pagemap stream, when it opened, closes.\<close>

definition env_ok :: "os \<Rightarrow> statics \<Rightarrow> bool" where
  "env_ok os st \<longleftrightarrow> \<not> init_traps os st \<and> (fopen_ok os \<longrightarrow> fclose_ok os)"

text \<open>The outcome and the log of a call; the locals at line 119; the values of
  \<^verbatim>\<open>bestBlock\<close> and \<^verbatim>\<open>bestGapCount\<close> at the return; the index the cleanup loop starts
  from (lines 198-204) and the calls the cleanup loop makes.\<close>

definition call_outcome :: "os \<Rightarrow> statics \<Rightarrow> u32 \<Rightarrow> outcome" where
  "call_outcome os st allocSize = fst (allocate_phys_mem os st allocSize)"

definition call_log :: "os \<Rightarrow> statics \<Rightarrow> u32 \<Rightarrow> event list" where
  "call_log os st allocSize = fst (snd (allocate_phys_mem os st allocSize))"

definition start_state :: "os \<Rightarrow> statics \<Rightarrow> search" where
  "start_state os st = \<lparr>table = call_table os st, physBlock = 0, bestBlock = - 1,
                bestGapCount = - 1, trace = []\<rparr>"

definition call_best :: "os \<Rightarrow> statics \<Rightarrow> u32 \<Rightarrow> int" where
  "call_best os st allocSize = bestBlock (snd (run_trials os st allocSize))"

definition call_bestGap :: "os \<Rightarrow> statics \<Rightarrow> u32 \<Rightarrow> int" where
  "call_bestGap os st allocSize = bestGapCount (snd (run_trials os st allocSize))"

definition call_unwind :: "os \<Rightarrow> statics \<Rightarrow> u32 \<Rightarrow> int" where
  "call_unwind os st allocSize =
     (if fst (run_trials os st allocSize) = call_numTrials os st allocSize
      then fst (run_trials os st allocSize) - 1 else fst (run_trials os st allocSize))"

definition call_cleanup :: "os \<Rightarrow> statics \<Rightarrow> u32 \<Rightarrow> event list" where
  "call_cleanup os st allocSize =
     cleanup (table (snd (run_trials os st allocSize))) (call_best os st allocSize)
       (call_allocSize os st allocSize) (call_unwind os st allocSize)"

text \<open>Trial \<open>i\<close> of a call: its verdict, the address in its slot, the calls it makes.
  Trial \<open>i\<close> is issued in the call when the log holds its call of \<^verbatim>\<open>posix_memalign\<close>.\<close>

definition call_verdict :: "os \<Rightarrow> statics \<Rightarrow> u32 \<Rightarrow> int \<Rightarrow> verdict" where
  "call_verdict os st allocSize i =
     verdict_of os (pageSize (lazy_init os st)) (cacheFriendlyFactor (lazy_init os st))
       (call_allocSize os st allocSize) (call_table os st) i"

definition call_ptr :: "os \<Rightarrow> statics \<Rightarrow> int \<Rightarrow> addr" where
  "call_ptr os st i = slot_ptr os (call_table os st) i"

definition call_events :: "os \<Rightarrow> statics \<Rightarrow> u32 \<Rightarrow> int \<Rightarrow> event list" where
  "call_events os st allocSize i =
     events_of os (pageSize (lazy_init os st)) (cacheFriendlyFactor (lazy_init os st))
       (call_allocSize os st allocSize) (call_table os st) i"

definition attempted :: "os \<Rightarrow> statics \<Rightarrow> u32 \<Rightarrow> int \<Rightarrow> bool" where
  "attempted os st allocSize i \<longleftrightarrow>
     (i, Posix_memalign (memalign os i)) \<in> set (call_log os st allocSize)"

text \<open>A trial the loop ran that qualified with \<open>g\<close> gaps, by its index; for a call that
  returns this is an issued trial with verdict \<open>Qualified g\<close> (lemma \<open>qualifier_iff\<close>).\<close>

definition qualifier :: "os \<Rightarrow> statics \<Rightarrow> u32 \<Rightarrow> int \<Rightarrow> int \<Rightarrow> bool" where
  "qualifier os st a i g \<longleftrightarrow>
     fopen_ok os \<and> 0 \<le> i \<and> i \<le> fst (run_trials os st a) \<and> i < call_numTrials os st a
     \<and> call_verdict os st a i = Qualified g"

text \<open>The region \<open>p\<close> of slot \<open>i\<close> is unpinned and then released: the log holds
  \<^verbatim>\<open>munlock(p, n)\<close> immediately followed by \<^verbatim>\<open>free(p)\<close>, both made for slot \<open>i\<close>.\<close>

definition released :: "event list \<Rightarrow> int \<Rightarrow> addr \<Rightarrow> u32 \<Rightarrow> bool" where
  "released log i p n \<longleftrightarrow> (\<exists>pre post. log = pre @ [(i, Munlock p n), (i, Free p)] @ post)"

section \<open>The scorer as the specification words it\<close>

text \<open>For a refinement statement: the classification of one transition between the
  frames of consecutive pages, and the score of a frame sequence, with \<open>block\<close> the
  number of pages of a cache-granularity block (\<open>CacheFriendlyMask + 1\<close>). A transition
  is contiguous, a gap between two block boundaries, or disqualifying; the score counts
  the gaps and is \<open>None\<close> for a sequence with a disqualifying transition.\<close>

datatype transition = Contiguous | Compatible_gap | Disqualifying

definition spec_classify :: "nat \<Rightarrow> u32 \<Rightarrow> u32 \<Rightarrow> transition" where
  "spec_classify block prev_page curr_page =
     (if curr_page = prev_page + 1 then Contiguous
      else if block dvd unat (prev_page + 1) \<and> block dvd unat curr_page then Compatible_gap
      else Disqualifying)"

fun spec_score :: "nat \<Rightarrow> u32 \<Rightarrow> u32 list \<Rightarrow> int \<Rightarrow> int option" where
  "spec_score block prev_page [] gaps = Some gaps"
| "spec_score block prev_page (curr_page # rest) gaps =
     (case spec_classify block prev_page curr_page of
        Contiguous \<Rightarrow> spec_score block curr_page rest gaps
      | Compatible_gap \<Rightarrow> spec_score block curr_page rest (gaps + 1)
      | Disqualifying \<Rightarrow> None)"

section \<open>The C library's heap, for reading a log\<close>

text \<open>What a logged call does to the set of live blocks: a successful \<^verbatim>\<open>posix_memalign\<close>
  adds its block, \<^verbatim>\<open>free\<close> is \<open>c_free\<close>, the other calls leave the set alone. A log
  replays to \<open>None\<close> when one of its calls of \<^verbatim>\<open>free\<close> is undefined.\<close>

fun heap_step :: "addr set \<Rightarrow> call \<Rightarrow> addr set option" where
  "heap_step live (Posix_memalign (Some p)) = Some (if p = 0 then live else insert p live)"
| "heap_step live (Free p) = c_free live p"
| "heap_step live c = Some live"

fun replay :: "addr set \<Rightarrow> event list \<Rightarrow> addr set option" where
  "replay live [] = Some live"
| "replay live (e # es) =
     (case heap_step live (snd e) of None \<Rightarrow> None | Some live' \<Rightarrow> replay live' es)"

section \<open>Concrete environments\<close>

text \<open>An environment with 4 KiB pages and 100 available pages: fewer than the 256 pages
  of one trial.\<close>

definition os_small :: os where
  "os_small = \<lparr>sc_pagesize = 4096, sc_avphys_pages = 100, malloc_garbage = (\<lambda>i. 0),
     fopen_ok = True, fclose_ok = True, memalign = (\<lambda>i. None), mlock_ret = (\<lambda>i. 0),
     pagemap = (\<lambda>t k. 0)\<rparr>"

text \<open>\<^verbatim>\<open>munlock\<close> fails on the null pointer and succeeds elsewhere.\<close>

definition munlock_null_fails :: "addr \<Rightarrow> u32 \<Rightarrow> int" where
  "munlock_null_fails p n = (if p = 0 then - 1 else 0)"

text \<open>64 KiB pages, so a 1 MiB region has 16 pages and \<open>cacheFriendlyFactor\<close> is 15;
  64 available pages give a budget of 3 trials. Trial 0 has one gap on a block boundary
  (frame 31, then 64, 65, ...), trial 1 is contiguous.\<close>

definition os_two :: os where
  "os_two = \<lparr>sc_pagesize = 65536, sc_avphys_pages = 64, malloc_garbage = (\<lambda>i. 0),
     fopen_ok = True, fclose_ok = True,
     memalign = (\<lambda>i. Some (2097152 * nat (i + 1))), mlock_ret = (\<lambda>i. 0),
     pagemap = (\<lambda>t k. if t = 0 then (if k = 0 then 31 else 63 + word_of_int k)
                        else 256 + word_of_int k)\<rparr>"

text \<open>64 KiB pages and 128 available pages: a 2 MiB region has 32 pages and the budget is
  3 trials. Trial 0 has two gaps, trials 1 and 2 have one gap each.\<close>

definition os_three :: os where
  "os_three = \<lparr>sc_pagesize = 65536, sc_avphys_pages = 128, malloc_garbage = (\<lambda>i. 0),
     fopen_ok = True, fclose_ok = True,
     memalign = (\<lambda>i. Some (2097152 * nat (i + 1))), mlock_ret = (\<lambda>i. 0),
     pagemap = (\<lambda>t k. if t = 0 then (if k = 0 then 31 else if k < 17 then 63 + word_of_int k
                                       else 111 + word_of_int k)
                        else if t = 1 then (if k = 0 then 1023 else 2047 + word_of_int k)
                        else (if k = 0 then 4095 else 8191 + word_of_int k))\<rparr>"


text \<open>Two calls in one process, 4 KiB pages, a budget of 2 trials each. In the first call
  both allocations succeed and both trials are disqualified at page 1. In the second
  call \<^verbatim>\<open>posix_memalign\<close> succeeds for trial 0 and fails for trial 1, and \<^verbatim>\<open>mlock\<close>
  fails on what trial 1 passes to it.\<close>

definition os_stale_first :: os where
  "os_stale_first = \<lparr>sc_pagesize = 4096, sc_avphys_pages = 768, malloc_garbage = (\<lambda>i. 0),
     fopen_ok = True, fclose_ok = True,
     memalign = (\<lambda>i. Some (2097152 * nat (i + 1))), mlock_ret = (\<lambda>i. 0),
     pagemap = (\<lambda>t k. if k = 0 then 5 else 9)\<rparr>"

definition os_stale_second :: os where
  "os_stale_second = \<lparr>sc_pagesize = 4096, sc_avphys_pages = 768, malloc_garbage = (\<lambda>i. 0),
     fopen_ok = True, fclose_ok = True,
     memalign = (\<lambda>i. if i = 0 then Some 6291456 else None),
     mlock_ret = (\<lambda>i. if i = 0 then 0 else - 1),
     pagemap = (\<lambda>t k. if k = 0 then 5 else 9)\<rparr>"

definition statics_after_first :: statics where
  "statics_after_first = snd (snd (allocate_phys_mem os_stale_first fresh_statics 1048576))"

text \<open>Two calls in one process, 64 KiB pages, a budget of 2 trials each. In the first call
  both allocations succeed, both trials are disqualified at page 1 and both regions are
  released. In the second call \<^verbatim>\<open>posix_memalign\<close> gives trial 0 the block at 4194304
  that the first call released, and fails for trial 1; \<^verbatim>\<open>mlock\<close> succeeds whenever it
  is called; the frames read are those of the one region there is, with one gap on a
  block boundary (frame 31, then 64, 65, ...).\<close>

definition os_reuse_first :: os where
  "os_reuse_first = \<lparr>sc_pagesize = 65536, sc_avphys_pages = 48, malloc_garbage = (\<lambda>i. 0),
     fopen_ok = True, fclose_ok = True,
     memalign = (\<lambda>i. Some (2097152 * nat (i + 1))), mlock_ret = (\<lambda>i. 0),
     pagemap = (\<lambda>t k. if k = 0 then 5 else 9)\<rparr>"

definition os_reuse_second :: os where
  "os_reuse_second = \<lparr>sc_pagesize = 65536, sc_avphys_pages = 48, malloc_garbage = (\<lambda>i. 0),
     fopen_ok = True, fclose_ok = True,
     memalign = (\<lambda>i. if i = 0 then Some 4194304 else None), mlock_ret = (\<lambda>i. 0),
     pagemap = (\<lambda>t k. if k = 0 then 31 else 63 + word_of_int k)\<rparr>"

definition statics_after_reuse_first :: statics where
  "statics_after_reuse_first =
     snd (snd (allocate_phys_mem os_reuse_first fresh_statics 1048576))"


section \<open>Auxiliary facts\<close>

declare walk.simps [simp del] trials.simps [simp del] cleanup.simps [simp del]

lemma normalize_size_example: "normalize_size 4096 10 = 1048576"
  by (simp add: normalize_size_def CACHE_GRANULARITY_def)

lemma trials_done:
  "\<not> trial < numTrials \<Longrightarrow> trials os ps cff allocSize numTrials trial s = (trial, s)"
  by (subst trials.simps) simp

lemma free_phys_mem_null:
  "free_phys_mem munlock_ret live 0 allocSize =
     Some (munlock_ret 0 allocSize, live, [Munlock 0 allocSize, Free 0])"
  by (simp add: free_phys_mem_def c_free_def)

lemma free_phys_mem_live:
  "block \<in> live \<Longrightarrow> block \<noteq> 0 \<Longrightarrow>
   free_phys_mem munlock_ret live block allocSize =
     Some (munlock_ret block allocSize, live - {block},
           [Munlock block allocSize, Free block])"
  by (simp add: free_phys_mem_def c_free_def)

lemma free_phys_mem_result:
  "free_phys_mem munlock_ret live block allocSize = Some (err, live', calls) \<Longrightarrow>
   calls = [Munlock block allocSize, Free block]
   \<and> (err \<noteq> 0 \<longleftrightarrow> munlock_ret block allocSize \<noteq> 0)"
  by (simp add: free_phys_mem_def c_free_def Let_def split: if_splits option.splits)

lemma fst_emit [simp]: "fst (emit e x) = fst x" by (cases x) simp

lemma snd_emit [simp]: "snd (emit e x) = e # snd x" by (cases x) simp

lemma walk_events:
  "e \<in> set (snd (walk os cff n trial page prev g)) \<Longrightarrow>
   \<exists>k. e = (trial, Fread k) \<and> page \<le> k \<and> k < n"
proof (induction os cff n trial page prev g rule: walk.induct)
  case (1 os cff allocPages trial page prev_page pageGaps)
  show ?case
  proof (cases "page < allocPages")
    case False
    with "1.prems" show ?thesis by (simp add: walk.simps [of os cff allocPages trial page])
  next
    case True
    show ?thesis
      using "1.prems" "1.IH" True
      apply (subst (asm) walk.simps)
      apply (simp add: Let_def split: if_splits prod.splits)
      apply force+
      done
  qed
qed

lemma walk_left:
  "fst (walk os cff n trial page prev g) = Loop_left p g' \<Longrightarrow> g \<le> g' \<and> page \<le> p"
proof (induction os cff n trial page prev g rule: walk.induct)
  case (1 os cff allocPages trial page prev_page pageGaps)
  show ?case
  proof (cases "page < allocPages")
    case False
    with "1.prems" show ?thesis by (simp add: walk.simps [of os cff allocPages trial page])
  next
    case True
    show ?thesis
      using "1.prems" "1.IH" True
      apply (subst (asm) walk.simps)
      apply (simp add: Let_def split: if_splits prod.splits)
      done
  qed
qed



lemma attempt_eq:
  "attempt os ps cff allocSize i tbl =
     (verdict_of os ps cff allocSize tbl i, tbl(i := slot_ptr os tbl i),
      events_of os ps cff allocSize tbl i)"
  by (auto simp add: attempt_def verdict_of_def events_of_def slot_ptr_def Let_def
      split: option.splits walk_exit.splits prod.splits)

lemma verdict_of_local:
  "tbl i = tbl' i \<Longrightarrow> verdict_of os ps cff allocSize tbl i = verdict_of os ps cff allocSize tbl' i"
  by (auto simp add: attempt_def verdict_of_def Let_def
      split: option.splits walk_exit.splits prod.splits)

lemma events_of_local:
  "tbl i = tbl' i \<Longrightarrow> events_of os ps cff allocSize tbl i = events_of os ps cff allocSize tbl' i"
  by (auto simp add: attempt_def events_of_def Let_def
      split: option.splits walk_exit.splits prod.splits)

lemma slot_ptr_local:
  "tbl i = tbl' i \<Longrightarrow> slot_ptr os tbl i = slot_ptr os tbl' i"
  by (simp add: slot_ptr_def split: option.splits)

lemma qualified_nonneg:
  "verdict_of os ps cff allocSize tbl i = Qualified g \<Longrightarrow> 0 \<le> g"
  using walk_left [of os cff "sint (allocSize div ps)" i 0 0 0 _ g]
  by (auto simp add: attempt_def verdict_of_def Let_def
      split: option.splits walk_exit.splits prod.splits if_splits)

lemma events_of_slot:
  "e \<in> set (events_of os ps cff allocSize tbl i) \<Longrightarrow> fst e = i \<and> \<not> is_release (snd e)"
  using walk_events [of e os cff "sint (allocSize div ps)" i 0 0 0]
  by (auto simp add: attempt_def events_of_def Let_def
      split: option.splits walk_exit.splits prod.splits if_splits)

lemma events_of_memalign:
  "(j, Posix_memalign r) \<in> set (events_of os ps cff allocSize tbl i) \<longleftrightarrow> j = i \<and> r = memalign os i"
  using walk_events [of "(j, Posix_memalign r)" os cff "sint (allocSize div ps)" i 0 0 0]
  by (auto simp add: attempt_def events_of_def Let_def
      split: option.splits walk_exit.splits prod.splits if_splits)

lemma trials_unfold:
  "t < n \<Longrightarrow> trials os ps cff sz n t s =
    (let s1 = s\<lparr>table := (table s)(t := slot_ptr os (table s) t),
                 trace := trace s @ events_of os ps cff sz (table s) t\<rparr> in
     case verdict_of os ps cff sz (table s) t of
        Alloc_failed \<Rightarrow> (t, s1) | Pin_failed \<Rightarrow> (t, s1) | No_permission \<Rightarrow> (t, s1)
      | Disqualified \<Rightarrow> trials os ps cff sz n (t + 1) s1
      | Qualified g \<Rightarrow>
          if bestBlock s = - 1 \<or> g < bestGapCount s then
            (let s2 = s1\<lparr>physBlock := slot_ptr os (table s) t, bestBlock := t,
                          bestGapCount := g\<rparr>
             in if g = 0 then (t, s2) else trials os ps cff sz n (t + 1) s2)
          else trials os ps cff sz n (t + 1) s1)"
  by (subst trials.simps) (simp add: attempt_eq Let_def split: verdict.splits)

lemma trials_range:
  "t \<le> n \<Longrightarrow> t \<le> fst (trials os ps cff sz n t s) \<and> fst (trials os ps cff sz n t s) \<le> n"
proof (induction "nat (n - t)" arbitrary: t s)
  case 0
  then show ?case by (simp add: trials_done)
next
  case (Suc k)
  then have lt: "t < n" and k: "k = nat (n - (t + 1))" and le: "t + 1 \<le> n" by auto
  note IH = Suc.hyps(1) [OF k le]
  show ?case
    using IH lt
    by (cases "verdict_of os ps cff sz (table s) t")
       (auto simp add: trials_unfold Let_def intro: order_trans [of t "t + 1"])
qed

lemma verdict_of_upd [simp]:
  "i \<noteq> t \<Longrightarrow> verdict_of os ps cff sz (tbl(t := x)) i = verdict_of os ps cff sz tbl i"
  by (rule verdict_of_local) simp

lemma events_of_upd [simp]:
  "i \<noteq> t \<Longrightarrow> events_of os ps cff sz (tbl(t := x)) i = events_of os ps cff sz tbl i"
  by (rule events_of_local) simp

lemma slot_ptr_upd [simp]:
  "i \<noteq> t \<Longrightarrow> slot_ptr os (tbl(t := x)) i = slot_ptr os tbl i"
  by (rule slot_ptr_local) simp

lemma trials_cases:
  assumes "t < n"
  obtains
    (stop) "verdict_of os ps cff sz (table s) t \<in> {Alloc_failed, Pin_failed, No_permission}"
      "trials os ps cff sz n t s = (t, attempted_state os ps cff sz t s)"
  | (perfect) "verdict_of os ps cff sz (table s) t = Qualified 0"
      "bestBlock s = - 1 \<or> 0 < bestGapCount s"
      "trials os ps cff sz n t s = (t, selected_state os ps cff sz t 0 s)"
  | (better) g where "verdict_of os ps cff sz (table s) t = Qualified g" "g \<noteq> 0"
      "bestBlock s = - 1 \<or> g < bestGapCount s"
      "trials os ps cff sz n t s =
         trials os ps cff sz n (t + 1) (selected_state os ps cff sz t g s)"
  | (skip) "verdict_of os ps cff sz (table s) t = Disqualified \<or>
            (\<exists>g. verdict_of os ps cff sz (table s) t = Qualified g \<and>
                 bestBlock s \<noteq> - 1 \<and> bestGapCount s \<le> g)"
      "trials os ps cff sz n t s =
         trials os ps cff sz n (t + 1) (attempted_state os ps cff sz t s)"
proof (cases "verdict_of os ps cff sz (table s) t")
  case Alloc_failed
  then show ?thesis using assms stop
    by (simp add: trials_unfold [of t n os ps cff sz s] attempted_state_def Let_def)
next
  case Pin_failed
  then show ?thesis using assms stop
    by (simp add: trials_unfold [of t n os ps cff sz s] attempted_state_def Let_def)
next
  case No_permission
  then show ?thesis using assms stop
    by (simp add: trials_unfold [of t n os ps cff sz s] attempted_state_def Let_def)
next
  case Disqualified
  then show ?thesis using assms skip
    by (simp add: trials_unfold [of t n os ps cff sz s] attempted_state_def Let_def)
next
  case (Qualified g)
  show ?thesis
  proof (cases "bestBlock s = - 1 \<or> g < bestGapCount s")
    case False
    then show ?thesis using Qualified assms skip
      by (simp add: trials_unfold [of t n os ps cff sz s] attempted_state_def Let_def)
  next
    case True
    show ?thesis
    proof (cases "g = 0")
      case True
      with \<open>bestBlock s = - 1 \<or> g < bestGapCount s\<close> Qualified assms perfect
      show ?thesis
        by (simp add: trials_unfold [of t n os ps cff sz s] attempted_state_def
            selected_state_def Let_def)
    next
      case False
      with \<open>bestBlock s = - 1 \<or> g < bestGapCount s\<close> Qualified assms better [of g]
      show ?thesis
        by (simp add: trials_unfold [of t n os ps cff sz s] attempted_state_def
            selected_state_def Let_def)
    qed
  qed
qed

lemma attempted_state_simps [simp]:
  "table (attempted_state os ps cff sz t s) = (table s)(t := slot_ptr os (table s) t)"
  "trace (attempted_state os ps cff sz t s) = trace s @ events_of os ps cff sz (table s) t"
  "physBlock (attempted_state os ps cff sz t s) = physBlock s"
  "bestBlock (attempted_state os ps cff sz t s) = bestBlock s"
  "bestGapCount (attempted_state os ps cff sz t s) = bestGapCount s"
  by (simp_all add: attempted_state_def)

lemma selected_state_simps [simp]:
  "table (selected_state os ps cff sz t g s) = (table s)(t := slot_ptr os (table s) t)"
  "trace (selected_state os ps cff sz t g s) = trace s @ events_of os ps cff sz (table s) t"
  "physBlock (selected_state os ps cff sz t g s) = slot_ptr os (table s) t"
  "bestBlock (selected_state os ps cff sz t g s) = t"
  "bestGapCount (selected_state os ps cff sz t g s) = g"
  by (simp_all add: selected_state_def)

lemma trials_table:
  "t \<le> n \<Longrightarrow>
   table (snd (trials os ps cff sz n t s)) i =
     (if t \<le> i \<and> i \<le> fst (trials os ps cff sz n t s) \<and> i < n
      then slot_ptr os (table s) i else table s i)"
proof (induction "nat (n - t)" arbitrary: t s)
  case 0
  then show ?case by (simp add: trials_done)
next
  case (Suc k)
  then have lt: "t < n" and k: "k = nat (n - (t + 1))" and le: "t + 1 \<le> n" by auto
  note IH = Suc.hyps(1) [OF k le]
  note R = trials_range [OF le, of os ps cff sz]
  from lt show ?case
  proof (cases rule: trials_cases [of t n os ps cff sz s])
    case stop
    then show ?thesis using lt by simp
  next
    case perfect
    then show ?thesis using lt by simp
  next
    case (better g)
    show ?thesis unfolding better(4)
      using IH [of "selected_state os ps cff sz t g s"]
        R [of "selected_state os ps cff sz t g s"] lt
      by (cases "i = t") simp_all
  next
    case skip
    show ?thesis unfolding skip(2)
      using IH [of "attempted_state os ps cff sz t s"]
        R [of "attempted_state os ps cff sz t s"] lt
      by (cases "i = t") simp_all
  qed
qed

lemma trials_trace:
  "t \<le> n \<Longrightarrow>
   set (trace (snd (trials os ps cff sz n t s))) =
     set (trace s) \<union>
     (\<Union>i \<in> {i. t \<le> i \<and> i \<le> fst (trials os ps cff sz n t s) \<and> i < n}.
        set (events_of os ps cff sz (table s) i))"
proof (induction "nat (n - t)" arbitrary: t s)
  case 0
  then show ?case by (auto simp add: trials_done)
next
  case (Suc k)
  then have lt: "t < n" and k: "k = nat (n - (t + 1))" and le: "t + 1 \<le> n" by auto
  note IH = Suc.hyps(1) [OF k le]
  note R = trials_range [OF le, of os ps cff sz]
  have split: "\<And>m. t + 1 \<le> m \<Longrightarrow>
     {i. t \<le> i \<and> i \<le> m \<and> i < n} = insert t {i. t + 1 \<le> i \<and> i \<le> m \<and> i < n}"
    using lt by auto
  have one: "{i. t \<le> i \<and> i \<le> t \<and> i < n} = {t}" using lt by auto
  have same: "\<And>m x. (\<Union>i \<in> {i. t + 1 \<le> i \<and> i \<le> m \<and> i < n}.
        set (events_of os ps cff sz ((table s)(t := x)) i)) =
      (\<Union>i \<in> {i. t + 1 \<le> i \<and> i \<le> m \<and> i < n}. set (events_of os ps cff sz (table s) i))"
    by (rule SUP_cong) auto
  from lt show ?case
  proof (cases rule: trials_cases [of t n os ps cff sz s])
    case stop
    then show ?thesis by (simp add: one)
  next
    case perfect
    then show ?thesis by (simp add: one)
  next
    case (better g)
    show ?thesis unfolding better(4)
      using IH [of "selected_state os ps cff sz t g s"]
        R [of "selected_state os ps cff sz t g s"]
      by (simp add: split same Un_assoc)
  next
    case skip
    show ?thesis unfolding skip(2)
      using IH [of "attempted_state os ps cff sz t s"]
        R [of "attempted_state os ps cff sz t s"]
      by (simp add: split same Un_assoc)
  qed
qed

lemma trials_continue:
  "t \<le> n \<Longrightarrow> gap_inv s \<Longrightarrow> t \<le> i \<Longrightarrow> i < fst (trials os ps cff sz n t s) \<Longrightarrow>
   verdict_of os ps cff sz (table s) i = Disqualified \<or>
   (\<exists>g. verdict_of os ps cff sz (table s) i = Qualified g \<and> 0 < g)"
proof (induction "nat (n - t)" arbitrary: t s)
  case 0
  then show ?case by (simp add: trials_done)
next
  case (Suc k)
  then have lt: "t < n" and k: "k = nat (n - (t + 1))" and le: "t + 1 \<le> n" by auto
  note IH = Suc.hyps(1) [OF k le]
  from lt show ?case
  proof (cases rule: trials_cases [of t n os ps cff sz s])
    case stop
    then show ?thesis using Suc.prems by simp
  next
    case perfect
    then show ?thesis using Suc.prems by simp
  next
    case (better g)
    have g0: "0 < g" using better(1,2) qualified_nonneg [of os ps cff sz "table s" t g] by simp
    have inv: "gap_inv (selected_state os ps cff sz t g s)" using g0 by (simp add: gap_inv_def)
    show ?thesis
    proof (cases "i = t")
      case True
      then show ?thesis using better(1) g0 by simp
    next
      case False
      then have "t + 1 \<le> i" using Suc.prems by simp
      from IH [OF inv this] Suc.prems(4) False show ?thesis
        unfolding better(4) by simp
    qed
  next
    case skip
    have inv: "gap_inv (attempted_state os ps cff sz t s)"
      using Suc.prems(2) by (simp add: gap_inv_def)
    show ?thesis
    proof (cases "i = t")
      case True
      then show ?thesis using skip(1) Suc.prems(2) by (auto simp add: gap_inv_def)
    next
      case False
      then have "t + 1 \<le> i" using Suc.prems by simp
      from IH [OF inv this] Suc.prems(4) False show ?thesis
        unfolding skip(2) by simp
    qed
  qed
qed

lemma trials_stop_reason:
  "t \<le> n \<Longrightarrow> fst (trials os ps cff sz n t s) < n \<Longrightarrow>
   verdict_of os ps cff sz (table s) (fst (trials os ps cff sz n t s))
     \<in> {Alloc_failed, Pin_failed, No_permission}
   \<or> (verdict_of os ps cff sz (table s) (fst (trials os ps cff sz n t s)) = Qualified 0
      \<and> bestBlock (snd (trials os ps cff sz n t s)) = fst (trials os ps cff sz n t s))"
proof (induction "nat (n - t)" arbitrary: t s)
  case 0
  then show ?case by (simp add: trials_done)
next
  case (Suc k)
  then have lt: "t < n" and k: "k = nat (n - (t + 1))" and le: "t + 1 \<le> n" by auto
  note IH = Suc.hyps(1) [OF k le]
  note R = trials_range [OF le, of os ps cff sz]
  from lt show ?case
  proof (cases rule: trials_cases [of t n os ps cff sz s])
    case stop
    then show ?thesis by simp
  next
    case perfect
    then show ?thesis by simp
  next
    case (better g)
    have ne: "fst (trials os ps cff sz n (t + 1) (selected_state os ps cff sz t g s)) \<noteq> t"
      using R [of "selected_state os ps cff sz t g s"] by simp
    show ?thesis
      using IH [of "selected_state os ps cff sz t g s"] Suc.prems(2) ne
      unfolding better(4) by simp
  next
    case skip
    have ne: "fst (trials os ps cff sz n (t + 1) (attempted_state os ps cff sz t s)) \<noteq> t"
      using R [of "attempted_state os ps cff sz t s"] by simp
    show ?thesis
      using IH [of "attempted_state os ps cff sz t s"] Suc.prems(2) ne
      unfolding skip(2) by simp
  qed
qed

lemma cand_upd:
  "cand os ps cff sz (tbl(t := x)) n (t + 1) lst i g = cand os ps cff sz tbl n (t + 1) lst i g"
  by (auto simp add: cand_def)

lemma cand_step:
  "t \<le> lst \<Longrightarrow> t < n \<Longrightarrow>
   cand os ps cff sz tbl n t lst i g \<longleftrightarrow>
     (i = t \<and> verdict_of os ps cff sz tbl t = Qualified g) \<or> cand os ps cff sz tbl n (t + 1) lst i g"
  by (cases "i = t") (auto simp add: cand_def)

lemma cand_next_gt: "cand os ps cff sz tbl n (t + 1) lst i g \<Longrightarrow> t < i"
  by (simp add: cand_def)

lemma cand_one:
  "t < n \<Longrightarrow> cand os ps cff sz tbl n t t i g \<longleftrightarrow> (i = t \<and> verdict_of os ps cff sz tbl t = Qualified g)"
  by (auto simp add: cand_def)

lemma trials_best:
  "t \<le> n \<Longrightarrow> 0 \<le> t \<Longrightarrow>
   kept os ps cff sz n t s (fst (trials os ps cff sz n t s)) (snd (trials os ps cff sz n t s))
   \<or> replaced os ps cff sz n t s (fst (trials os ps cff sz n t s)) (snd (trials os ps cff sz n t s))"
proof (induction "nat (n - t)" arbitrary: t s)
  case 0
  then show ?case by (simp add: trials_done kept_def cand_def)
next
  case (Suc k)
  then have lt: "t < n" and k: "k = nat (n - (t + 1))" and le: "t + 1 \<le> n" by auto
  have t1: "0 \<le> t + 1" and tm: "t \<noteq> - 1" using Suc.prems by simp_all
  note IH = Suc.hyps(1) [OF k le t1]
  note R = trials_range [OF le, of os ps cff sz]
  from lt show ?case
  proof (cases rule: trials_cases [of t n os ps cff sz s])
    case stop
    then have "kept os ps cff sz n t s t (attempted_state os ps cff sz t s)"
      using lt by (auto simp add: kept_def cand_one)
    then show ?thesis using stop by simp
  next
    case perfect
    then have "replaced os ps cff sz n t s t (selected_state os ps cff sz t 0 s)"
      using lt by (auto simp add: replaced_def cand_one)
    then show ?thesis using perfect by simp
  next
    case (better g)
    let ?s2 = "selected_state os ps cff sz t g s"
    let ?lst = "fst (trials os ps cff sz n (t + 1) ?s2)"
    let ?s' = "snd (trials os ps cff sz n (t + 1) ?s2)"
    have tl: "t \<le> ?lst" using R [of ?s2] by simp
    have tne: "?lst \<noteq> t" using R [of ?s2] by simp
    note cs = cand_step [OF tl lt, of os ps cff sz "table s"]
    from IH [of ?s2] have "replaced os ps cff sz n t s ?lst ?s'"
    proof
      assume "kept os ps cff sz n (t + 1) ?s2 ?lst ?s'"
      then show ?thesis
        using better(1,3) tm
        by (auto simp add: kept_def replaced_def cs cand_upd dest: cand_next_gt)
    next
      assume "replaced os ps cff sz n (t + 1) ?s2 ?lst ?s'"
      then have ne: "bestBlock ?s' \<noteq> t" by (auto simp add: replaced_def cand_def)
      from \<open>replaced os ps cff sz n (t + 1) ?s2 ?lst ?s'\<close> ne show ?thesis
        using better(1,3) tm
        by (auto simp add: replaced_def cs cand_upd dest: cand_next_gt)
    qed
    then show ?thesis unfolding better(4) by simp
  next
    case skip
    let ?s1 = "attempted_state os ps cff sz t s"
    let ?lst = "fst (trials os ps cff sz n (t + 1) ?s1)"
    let ?s' = "snd (trials os ps cff sz n (t + 1) ?s1)"
    have tl: "t \<le> ?lst" using R [of ?s1] by simp
    note cs = cand_step [OF tl lt, of os ps cff sz "table s"]
    from IH [of ?s1] have "kept os ps cff sz n t s ?lst ?s' \<or> replaced os ps cff sz n t s ?lst ?s'"
    proof
      assume "kept os ps cff sz n (t + 1) ?s1 ?lst ?s'"
      then have "kept os ps cff sz n t s ?lst ?s'"
        using skip(1)
        by (auto simp add: kept_def cs cand_upd dest: cand_next_gt)
      then show ?thesis by simp
    next
      assume "replaced os ps cff sz n (t + 1) ?s1 ?lst ?s'"
      then have ne: "bestBlock ?s' \<noteq> t" by (auto simp add: replaced_def cand_def)
      from \<open>replaced os ps cff sz n (t + 1) ?s1 ?lst ?s'\<close> ne
      have "replaced os ps cff sz n t s ?lst ?s'"
        using skip(1)
        by (auto simp add: replaced_def cs cand_upd dest: cand_next_gt)
      then show ?thesis by simp
    qed
    then show ?thesis unfolding skip(2) by simp
  qed
qed

lemma cleanup_neg: "unwind < 0 \<Longrightarrow> cleanup tbl best sz unwind = []"
  by (subst cleanup.simps) simp

lemma cleanup_set:
  "e \<in> set (cleanup tbl best sz unwind) \<longleftrightarrow>
   (\<exists>i. 0 \<le> i \<and> i \<le> unwind \<and> i \<noteq> best \<and> tbl i \<noteq> 0
        \<and> (e = (i, Munlock (tbl i) sz) \<or> e = (i, Free (tbl i))))"
proof (induction tbl best sz unwind rule: cleanup.induct)
  case (1 tbl best allocSize unwind)
  show ?case
  proof (cases "unwind \<ge> 0")
    case False
    then show ?thesis by (simp add: cleanup_neg)
  next
    case True
    have r: "\<And>P. (\<exists>i. 0 \<le> i \<and> i \<le> unwind \<and> P i) \<longleftrightarrow>
                  P unwind \<or> (\<exists>i. 0 \<le> i \<and> i \<le> unwind - 1 \<and> P i)"
    proof -
      fix P :: "int \<Rightarrow> bool"
      have "\<And>i. i \<le> unwind \<longleftrightarrow> i = unwind \<or> i \<le> unwind - 1" by auto
      then show "(\<exists>i. 0 \<le> i \<and> i \<le> unwind \<and> P i) \<longleftrightarrow>
                  P unwind \<or> (\<exists>i. 0 \<le> i \<and> i \<le> unwind - 1 \<and> P i)"
        using True by auto
    qed
    show ?thesis
      apply (subst cleanup.simps)
      apply (subst r)
      using True "1.IH" [OF True]
      apply auto
      done
  qed
qed

lemma cleanup_released:
  "0 \<le> i \<Longrightarrow> i \<le> unwind \<Longrightarrow> i \<noteq> best \<Longrightarrow> tbl i \<noteq> 0 \<Longrightarrow>
   released (cleanup tbl best sz unwind) i (tbl i) sz"
proof (induction tbl best sz unwind rule: cleanup.induct)
  case (1 tbl best allocSize unwind)
  then have u: "unwind \<ge> 0" by simp
  show ?case
  proof (cases "i = unwind")
    case True
    have "cleanup tbl best allocSize unwind =
           [] @ [(i, Munlock (tbl i) allocSize), (i, Free (tbl i))]
              @ cleanup tbl best allocSize (unwind - 1)"
      using True "1.prems" by (subst cleanup.simps) simp
    then show ?thesis unfolding released_def by blast
  next
    case False
    then have "i \<le> unwind - 1" using "1.prems" by simp
    from "1.IH" [OF u "1.prems"(1) this "1.prems"(3,4)]
    obtain pre post where
      eq: "cleanup tbl best allocSize (unwind - 1) =
             pre @ [(i, Munlock (tbl i) allocSize), (i, Free (tbl i))] @ post"
      unfolding released_def by blast
    have "cleanup tbl best allocSize unwind =
            ((if unwind \<noteq> best \<and> tbl unwind \<noteq> 0
              then [(unwind, Munlock (tbl unwind) allocSize), (unwind, Free (tbl unwind))]
              else []) @ pre)
            @ [(i, Munlock (tbl i) allocSize), (i, Free (tbl i))] @ post"
      using u eq by (subst cleanup.simps) simp
    then show ?thesis unfolding released_def by blast
  qed
qed

lemma released_append: "released ys i p n \<Longrightarrow> released (xs @ ys) i p n"
proof -
  assume "released ys i p n"
  then obtain pre post where "ys = pre @ [(i, Munlock p n), (i, Free p)] @ post"
    unfolding released_def by blast
  then have "xs @ ys = (xs @ pre) @ [(i, Munlock p n), (i, Free p)] @ post" by simp
  then show ?thesis unfolding released_def by blast
qed

lemma sint_quarter: "sint (x div 4 :: u32) = uint x div 4"
proof -
  have "uint x < 2 ^ 32" using uint_lt2p [of x] by simp
  then have b: "uint x div 4 < 2 ^ 31" by simp
  have a: "- (2 ^ 31) \<le> uint x div 4"
    by (rule order_trans [of _ 0]) (simp_all add: pos_imp_zdiv_nonneg_iff)
  have "sint (x div 4) = signed_take_bit 31 (uint (x div 4))"
    by (simp add: sint_uint)
  also have "uint (x div 4) = uint x div 4" by (simp add: uint_div)
  also have "signed_take_bit 31 (uint x div 4) = uint x div 4"
    using a b by (rule signed_take_bit_int_eq_self)
  finally show ?thesis .
qed

lemma attempt_budget_range:
  "0 \<le> attempt_budget avail ps allocSize \<and> attempt_budget avail ps allocSize \<le> MAX_ATTEMPT"
  by (simp add: attempt_budget_def Let_def sint_quarter MAX_ATTEMPT_def pos_imp_zdiv_nonneg_iff)

lemma call_numTrials_range:
  "0 \<le> call_numTrials os st a \<and> call_numTrials os st a \<le> MAX_ATTEMPT"
  by (simp add: call_numTrials_def attempt_budget_range)

lemma start_state_simps [simp]:
  "table (start_state os st) = call_table os st"
  "physBlock (start_state os st) = 0"
  "bestBlock (start_state os st) = - 1"
  "bestGapCount (start_state os st) = - 1"
  "trace (start_state os st) = []"
  by (simp_all add: start_state_def)

lemma run_trials_open:
  "fopen_ok os \<Longrightarrow>
   run_trials os st a =
     trials os (pageSize (lazy_init os st)) (cacheFriendlyFactor (lazy_init os st))
       (call_allocSize os st a) (call_numTrials os st a) 0 (start_state os st)"
  by (simp add: run_trials_def Let_def start_state_def)

lemma run_trials_closed:
  "\<not> fopen_ok os \<Longrightarrow> run_trials os st a = (0, start_state os st)"
  by (simp add: run_trials_def Let_def start_state_def)

lemma run_range:
  "0 \<le> fst (run_trials os st a) \<and> fst (run_trials os st a) \<le> call_numTrials os st a"
proof (cases "fopen_ok os")
  case True
  then show ?thesis
    using trials_range [of 0 "call_numTrials os st a"] call_numTrials_range [of os st a]
    by (simp add: run_trials_open)
next
  case False
  then show ?thesis using call_numTrials_range [of os st a] by (simp add: run_trials_closed)
qed

lemma run_table:
  "table (snd (run_trials os st a)) i =
     (if fopen_ok os \<and> 0 \<le> i \<and> i \<le> fst (run_trials os st a) \<and> i < call_numTrials os st a
      then call_ptr os st i else call_table os st i)"
proof (cases "fopen_ok os")
  case True
  then show ?thesis
    using trials_table [of 0 "call_numTrials os st a"] call_numTrials_range [of os st a]
    by (simp add: run_trials_open call_ptr_def)
next
  case False
  then show ?thesis by (simp add: run_trials_closed)
qed

lemma run_trace:
  "e \<in> set (trace (snd (run_trials os st a))) \<longleftrightarrow>
     fopen_ok os \<and>
     (\<exists>i. 0 \<le> i \<and> i \<le> fst (run_trials os st a) \<and> i < call_numTrials os st a
          \<and> e \<in> set (call_events os st a i))"
proof (cases "fopen_ok os")
  case True
  then show ?thesis
    using trials_trace [of 0 "call_numTrials os st a"] call_numTrials_range [of os st a]
    by (simp add: run_trials_open call_events_def)
next
  case False
  then show ?thesis by (simp add: run_trials_closed)
qed

lemma run_continue:
  "fopen_ok os \<Longrightarrow> 0 \<le> i \<Longrightarrow> i < fst (run_trials os st a) \<Longrightarrow>
   call_verdict os st a i = Disqualified \<or> (\<exists>g. call_verdict os st a i = Qualified g \<and> 0 < g)"
  using trials_continue [of 0 "call_numTrials os st a" "start_state os st" i]
    call_numTrials_range [of os st a]
  by (simp add: run_trials_open call_verdict_def gap_inv_def)

lemma run_stop_reason:
  "fopen_ok os \<Longrightarrow> fst (run_trials os st a) < call_numTrials os st a \<Longrightarrow>
   call_verdict os st a (fst (run_trials os st a)) \<in> {Alloc_failed, Pin_failed, No_permission}
   \<or> (call_verdict os st a (fst (run_trials os st a)) = Qualified 0
      \<and> call_best os st a = fst (run_trials os st a))"
  using trials_stop_reason [of 0 "call_numTrials os st a" _ _ _ _ "start_state os st"]
    call_numTrials_range [of os st a]
  by (simp add: run_trials_open call_verdict_def call_best_def)

lemma run_best:
  "(call_best os st a = - 1 \<and> physBlock (snd (run_trials os st a)) = 0
      \<and> (\<forall>i g. \<not> qualifier os st a i g))
   \<or> (qualifier os st a (call_best os st a) (bestGapCount (snd (run_trials os st a)))
      \<and> physBlock (snd (run_trials os st a)) = call_ptr os st (call_best os st a)
      \<and> (\<forall>i g. qualifier os st a i g \<longrightarrow>
            bestGapCount (snd (run_trials os st a)) \<le> g
            \<and> (g = bestGapCount (snd (run_trials os st a)) \<longrightarrow> call_best os st a \<le> i)))"
proof (cases "fopen_ok os")
  case False
  then show ?thesis by (simp add: run_trials_closed call_best_def qualifier_def)
next
  case True
  have n: "(0::int) \<le> call_numTrials os st a" using call_numTrials_range [of os st a] by simp
  let ?ps = "pageSize (lazy_init os st)" and ?cff = "cacheFriendlyFactor (lazy_init os st)"
  let ?sz = "call_allocSize os st a" and ?n = "call_numTrials os st a"
  let ?R = "trials os ?ps ?cff ?sz ?n 0 (start_state os st)"
  have q: "\<And>i g. qualifier os st a i g = cand os ?ps ?cff ?sz (call_table os st) ?n 0 (fst ?R) i g"
    using True by (simp add: qualifier_def cand_def run_trials_open call_verdict_def)
  from trials_best [OF n order_refl, of os ?ps ?cff ?sz "start_state os st"]
  show ?thesis
  proof
    assume "kept os ?ps ?cff ?sz ?n 0 (start_state os st) (fst ?R) (snd ?R)"
    then show ?thesis
      using True by (simp add: kept_def q call_best_def run_trials_open)
  next
    assume "replaced os ?ps ?cff ?sz ?n 0 (start_state os st) (fst ?R) (snd ?R)"
    then show ?thesis
      using True by (simp add: replaced_def q call_best_def run_trials_open call_ptr_def)
  qed
qed

lemma allocate_ok:
  "env_ok os st \<Longrightarrow>
   call_outcome os st a = Returned (physBlock (snd (run_trials os st a))) \<and>
   call_log os st a = trace (snd (run_trials os st a)) @ call_cleanup os st a"
  by (auto simp add: env_ok_def call_outcome_def call_log_def allocate_phys_mem_def
      call_cleanup_def call_unwind_def call_best_def Let_def split: prod.splits)

lemma log_cases:
  "e \<in> set (call_log os st a) \<Longrightarrow>
   e \<in> set (trace (snd (run_trials os st a))) \<or> e \<in> set (call_cleanup os st a)"
  by (auto simp add: call_log_def allocate_phys_mem_def
      call_cleanup_def call_unwind_def call_best_def Let_def split: prod.splits if_splits)

lemma unwind_range: "call_unwind os st a < call_numTrials os st a
                     \<and> call_unwind os st a \<le> fst (run_trials os st a)"
  using run_range [of os st a] by (simp add: call_unwind_def)

lemma call_events_slot:
  "e \<in> set (call_events os st a i) \<Longrightarrow> fst e = i \<and> \<not> is_release (snd e)"
  unfolding call_events_def by (rule events_of_slot)

lemma call_cleanup_set:
  "e \<in> set (call_cleanup os st a) \<longleftrightarrow>
   (\<exists>i. 0 \<le> i \<and> i \<le> call_unwind os st a \<and> i \<noteq> call_best os st a
        \<and> table (snd (run_trials os st a)) i \<noteq> 0
        \<and> (e = (i, Munlock (table (snd (run_trials os st a)) i) (call_allocSize os st a))
           \<or> e = (i, Free (table (snd (run_trials os st a)) i))))"
  unfolding call_cleanup_def by (rule cleanup_set)

lemma log_slots:
  "e \<in> set (call_log os st a) \<Longrightarrow> 0 \<le> fst e \<and> fst e < call_numTrials os st a"
proof -
  assume "e \<in> set (call_log os st a)"
  from log_cases [OF this] show ?thesis
  proof
    assume "e \<in> set (trace (snd (run_trials os st a)))"
    then obtain i where "0 \<le> i" "i < call_numTrials os st a" "e \<in> set (call_events os st a i)"
      unfolding run_trace by blast
    then show ?thesis using call_events_slot [of e os st a i] by simp
  next
    assume "e \<in> set (call_cleanup os st a)"
    then show ?thesis using unwind_range [of os st a]
      unfolding call_cleanup_set by auto
  qed
qed

lemma attempted_iff:
  "env_ok os st \<Longrightarrow>
   attempted os st a i \<longleftrightarrow>
     fopen_ok os \<and> 0 \<le> i \<and> i \<le> fst (run_trials os st a) \<and> i < call_numTrials os st a"
proof -
  assume ok: "env_ok os st"
  have c: "(i, Posix_memalign (memalign os i)) \<notin> set (call_cleanup os st a)"
    unfolding call_cleanup_set by simp
  have t: "(i, Posix_memalign (memalign os i)) \<in> set (trace (snd (run_trials os st a))) \<longleftrightarrow>
        fopen_ok os \<and> 0 \<le> i \<and> i \<le> fst (run_trials os st a) \<and> i < call_numTrials os st a"
    unfolding run_trace call_events_def events_of_memalign by auto
  show ?thesis
    unfolding attempted_def using allocate_ok [OF ok, of a] c t by simp
qed

lemma qualifier_iff:
  "env_ok os st \<Longrightarrow>
   qualifier os st a i g \<longleftrightarrow> attempted os st a i \<and> call_verdict os st a i = Qualified g"
  by (simp add: qualifier_def attempted_iff)

lemma qualified_pinned:
  "verdict_of os ps cff sz tbl i = Qualified g \<Longrightarrow>
   slot_ptr os tbl i \<noteq> 0 \<and> (i, Mlock (slot_ptr os tbl i) sz) \<in> set (events_of os ps cff sz tbl i)"
  by (auto simp add: attempt_def verdict_of_def events_of_def slot_ptr_def Let_def
      split: option.splits walk_exit.splits prod.splits if_splits)


lemma perfect_is_last:
  assumes ok: "env_ok os st"
    and att: "attempted os st a t"
    and qual: "call_verdict os st a t = Qualified 0"
  shows "fst (run_trials os st a) = t \<and> call_best os st a = t"
proof -
  from att have f: "fopen_ok os" and t0: "0 \<le> t" and tl: "t \<le> fst (run_trials os st a)"
    and tn: "t < call_numTrials os st a"
    by (simp_all add: attempted_iff [OF ok])
  have "\<not> t < fst (run_trials os st a)"
    using run_continue [OF f t0, of st a] qual by auto
  with tl have eq: "fst (run_trials os st a) = t" by simp
  from run_stop_reason [OF f, of st a] eq tn qual
  have "call_best os st a = t" by simp
  with eq show ?thesis by simp
qed

lemma released_in_cleanup:
  assumes ok: "env_ok os st"
    and att: "attempted os st a i"
    and mem: "memalign os i = Some p" and nz: "p \<noteq> 0"
    and nb: "i \<noteq> call_best os st a"
  shows "released (call_log os st a) i p (call_allocSize os st a)"
proof -
  from att have f: "fopen_ok os" and i0: "0 \<le> i" and il: "i \<le> fst (run_trials os st a)"
    and inn: "i < call_numTrials os st a"
    by (simp_all add: attempted_iff [OF ok])
  have tb: "table (snd (run_trials os st a)) i = p"
    using f i0 il inn mem by (simp add: run_table call_ptr_def slot_ptr_def)
  have iu: "i \<le> call_unwind os st a" using il inn by (simp add: call_unwind_def)
  have "released (call_cleanup os st a) i (table (snd (run_trials os st a)) i)
          (call_allocSize os st a)"
    unfolding call_cleanup_def using i0 iu nb tb nz by (intro cleanup_released) simp_all
  then show ?thesis
    using allocate_ok [OF ok, of a] tb by (simp add: released_append)
qed

lemma release_not_best:
  assumes "e \<in> set (call_log os st a)" and "is_release (snd e)"
  shows "fst e \<noteq> call_best os st a"
proof -
  from log_cases [OF assms(1)] show ?thesis
  proof
    assume "e \<in> set (trace (snd (run_trials os st a)))"
    then obtain i where "e \<in> set (call_events os st a i)" unfolding run_trace by blast
    then show ?thesis using call_events_slot [of e os st a i] assms(2) by simp
  next
    assume "e \<in> set (call_cleanup os st a)"
    then show ?thesis unfolding call_cleanup_set by auto
  qed
qed


lemma best_pinned:
  assumes ok: "env_ok os st" and b: "call_best os st a \<noteq> - 1"
  shows "attempted os st a (call_best os st a)
         \<and> call_verdict os st a (call_best os st a) = Qualified (call_bestGap os st a)
         \<and> call_outcome os st a = Returned (call_ptr os st (call_best os st a))
         \<and> call_ptr os st (call_best os st a) \<noteq> 0
         \<and> (call_best os st a, Mlock (call_ptr os st (call_best os st a)) (call_allocSize os st a))
             \<in> set (call_log os st a)"
proof -
  from run_best [of os st a] b
  have q: "qualifier os st a (call_best os st a) (call_bestGap os st a)"
    and p: "physBlock (snd (run_trials os st a)) = call_ptr os st (call_best os st a)"
    unfolding call_bestGap_def by blast+
  from q have b1: "attempted os st a (call_best os st a)"
    and b2: "call_verdict os st a (call_best os st a) = Qualified (call_bestGap os st a)"
    by (simp_all add: qualifier_iff [OF ok])
  from b2 have nz: "call_ptr os st (call_best os st a) \<noteq> 0"
    and ml: "(call_best os st a, Mlock (call_ptr os st (call_best os st a)) (call_allocSize os st a))
             \<in> set (call_events os st a (call_best os st a))"
    unfolding call_verdict_def call_ptr_def call_events_def
    by (simp_all add: qualified_pinned)
  from p have r: "call_outcome os st a = Returned (call_ptr os st (call_best os st a))"
    using allocate_ok [OF ok, of a] by simp
  have "(call_best os st a, Mlock (call_ptr os st (call_best os st a)) (call_allocSize os st a))
             \<in> set (trace (snd (run_trials os st a)))"
    unfolding run_trace using ml b1 by (auto simp add: attempted_iff [OF ok])
  then have "(call_best os st a, Mlock (call_ptr os st (call_best os st a)) (call_allocSize os st a))
             \<in> set (call_log os st a)"
    using allocate_ok [OF ok, of a] by simp
  with b1 b2 r nz show ?thesis by simp
qed



lemma attempt_budget_le:
  "attempt_budget avail ps sz \<le> (uint avail div (uint sz div uint ps)) * 3 div 4"
proof -
  let ?q = "avail div (sz div ps)"
  have "uint (?q * 3) = (uint ?q * 3) mod 2 ^ 32"
    by (simp add: uint_word_ariths)
  also have "\<dots> \<le> uint ?q * 3"
    by (rule zmod_le_nonneg_dividend) simp
  finally have "uint (?q * 3) div 4 \<le> uint ?q * 3 div 4"
    by (rule zdiv_mono1) simp
  moreover have "uint ?q = uint avail div (uint sz div uint ps)"
    by (simp add: uint_div)
  ultimately have "sint (?q * 3 div 4) \<le> (uint avail div (uint sz div uint ps)) * 3 div 4"
    by (simp add: sint_quarter)
  then show ?thesis
    by (simp add: attempt_budget_def Let_def)
qed

lemma budget_three_quarters:
  assumes "n \<le> (avail div p) * 3 div 4" and "0 \<le> p" and "0 \<le> (avail::int)" and "0 \<le> n"
  shows "4 * n * p \<le> 3 * avail"
proof -
  have "4 * n \<le> 3 * (avail div p)" using assms(1) by simp
  then have "4 * n * p \<le> 3 * (avail div p) * p"
    using assms(2) by (rule mult_right_mono)
  also have "\<dots> = 3 * ((avail div p) * p)" by simp
  also have "(avail div p) * p \<le> avail"
  proof (cases "p = 0")
    case True
    then show ?thesis using assms(3) by simp
  next
    case False
    with assms(2) have "0 < p" by simp
    then have "0 \<le> avail mod p" by simp
    moreover have "avail = (avail div p) * p + avail mod p" by simp
    ultimately show ?thesis by linarith
  qed
  finally show ?thesis by simp
qed

lemma trials_trace_list:
  "t < n \<Longrightarrow>
   trace (snd (trials os ps cff sz n t s)) =
     trace s @ concat (map (events_of os ps cff sz (table s))
                         [t .. min (fst (trials os ps cff sz n t s)) (n - 1)])"
proof (induction "nat (n - t)" arbitrary: t s)
  case 0
  then show ?case by simp
next
  case (Suc k)
  then have lt: "t < n" and k: "k = nat (n - (t + 1))" and le: "t + 1 \<le> n" by auto
  note R = trials_range [OF le, of os ps cff sz]
  have one: "[t .. min t (n - 1)] = [t]" using lt by (simp add: upto_rec1)
  have same: "\<And>m x. map (events_of os ps cff sz ((table s)(t := x))) [t + 1 .. m] =
      map (events_of os ps cff sz (table s)) [t + 1 .. m]"
    by (rule map_cong) auto
  have next_list: "\<And>s'. t + 1 < n \<Longrightarrow>
       [t .. min (fst (trials os ps cff sz n (t + 1) s')) (n - 1)] =
       t # [t + 1 .. min (fst (trials os ps cff sz n (t + 1) s')) (n - 1)]"
  proof -
    fix s' assume "t + 1 < n"
    with R [of s'] have "t \<le> min (fst (trials os ps cff sz n (t + 1) s')) (n - 1)" by simp
    then show "[t .. min (fst (trials os ps cff sz n (t + 1) s')) (n - 1)] =
       t # [t + 1 .. min (fst (trials os ps cff sz n (t + 1) s')) (n - 1)]"
      by (simp add: upto_rec1)
  qed
  have last_list: "\<And>s'. \<not> t + 1 < n \<Longrightarrow>
       trials os ps cff sz n (t + 1) s' = (t + 1, s') \<and> [t .. min (t + 1) (n - 1)] = [t]"
    using lt by (simp add: trials_done upto_rec1)
  from lt show ?case
  proof (cases rule: trials_cases [of t n os ps cff sz s])
    case stop
    then show ?thesis by (simp add: one)
  next
    case perfect
    then show ?thesis by (simp add: one)
  next
    case (better g)
    show ?thesis
    proof (cases "t + 1 < n")
      case True
      from Suc.hyps(1) [OF k True, of "selected_state os ps cff sz t g s"]
      show ?thesis unfolding better(4) next_list [OF True] by (simp add: same)
    next
      case False
      from last_list [OF False, of "selected_state os ps cff sz t g s"]
      show ?thesis unfolding better(4) by simp
    qed
  next
    case skip
    show ?thesis
    proof (cases "t + 1 < n")
      case True
      from Suc.hyps(1) [OF k True, of "attempted_state os ps cff sz t s"]
      show ?thesis unfolding skip(2) next_list [OF True] by (simp add: same)
    next
      case False
      from last_list [OF False, of "attempted_state os ps cff sz t s"]
      show ?thesis unfolding skip(2) by simp
    qed
  qed
qed

lemma call_events_eta:
  "call_events os st a =
     events_of os (pageSize (lazy_init os st)) (cacheFriendlyFactor (lazy_init os st))
       (call_allocSize os st a) (call_table os st)"
  by (rule ext) (simp add: call_events_def)

lemma run_trace_list:
  "fopen_ok os \<Longrightarrow>
   trace (snd (run_trials os st a)) =
     concat (map (call_events os st a) [0 .. call_unwind os st a])"
proof (cases "0 < call_numTrials os st a")
  case True
  assume f: "fopen_ok os"
  have u: "call_unwind os st a = min (fst (run_trials os st a)) (call_numTrials os st a - 1)"
    using run_range [of os st a] by (simp add: call_unwind_def min_def)
  show ?thesis
    unfolding u using trials_trace_list [OF True, of os _ _ _ "start_state os st"] f
    by (simp add: run_trials_open call_events_eta)
next
  case False
  assume f: "fopen_ok os"
  from False have z: "call_numTrials os st a = 0" using call_numTrials_range [of os st a] by simp
  then have "run_trials os st a = (0, start_state os st)"
    using f by (simp add: run_trials_open trials_done)
  then show ?thesis using z by (simp add: call_unwind_def)
qed

lemma cleanup_only_releases:
  "e \<in> set (call_cleanup os st a) \<Longrightarrow> is_release (snd e)"
  unfolding call_cleanup_set by auto

lemma pages_per_trial_pos:
  "ps \<noteq> 0 \<Longrightarrow> normalize_size ps allocSize div ps \<noteq> 0"
proof -
  assume ps: "ps \<noteq> 0"
  have "ps \<le> normalize_size ps allocSize"
    by (simp add: normalize_size_def Let_def not_less)
  then have "unat ps \<le> unat (normalize_size ps allocSize)" by (simp add: word_le_nat_alt)
  moreover have "0 < unat ps" using ps by (simp add: unat_gt_0)
  ultimately have "0 < unat (normalize_size ps allocSize) div unat ps"
    by (simp add: div_greater_zero_iff)
  then have "unat (normalize_size ps allocSize div ps) \<noteq> 0" by (simp add: unat_div)
  then show ?thesis by (simp add: unat_eq_zero)
qed

text \<open>Size normalisation where line 92 does not wrap around: for a power-of-two page
  size \<open>2 ^ k\<close> and a request \<open>s\<close> with \<open>s + 2 ^ k \<le> 2 ^ 32\<close>, the normalised size is a
  multiple of the page size and at least the request rounded up to the page size. It
  is at least \<open>CACHE_GRANULARITY\<close>, at least the page size and positive for every
  request.\<close>

lemma and_low_bits:
  "k < 32 \<Longrightarrow> unat ((s :: u32) AND (2 ^ k - 1)) = unat s mod 2 ^ k"
proof -
  have "s AND (2 ^ k - 1) = take_bit k s"
    by (simp only: take_bit_eq_mask mask_eq_decr_exp)
  moreover have "unat (take_bit k s) = take_bit k (unat s)"
    by (rule unsigned_take_bit_eq)
  moreover have "take_bit k (unat s) = unat s mod 2 ^ k"
    by (rule take_bit_eq_mod)
  ultimately show ?thesis by simp
qed

lemma and_high_bits:
  "(s :: u32) AND NOT m = s - (s AND m)"
proof -
  have d: "(s AND m) AND (s AND NOT m) = 0"
    by (simp add: and.assoc and.left_commute)
  have "(s AND m) + (s AND NOT m) = (s AND m) OR (s AND NOT m)"
    using d by (rule disjunctive_add_eq_or)
  also have "\<dots> = s AND (m OR NOT m)"
    by (simp only: bit.conj_disj_distrib)
  also have "\<dots> = s" by simp
  finally show ?thesis by (simp add: algebra_simps)
qed

lemma unat_round_down:
  assumes "k < 32"
  shows "unat ((s :: u32) AND NOT (2 ^ k - 1)) = unat s - unat s mod 2 ^ k"
proof -
  have "s AND (2 ^ k - 1) \<le> s" by (rule word_and_le2)
  then have "unat (s - (s AND (2 ^ k - 1))) = unat s - unat (s AND (2 ^ k - 1))"
    by (rule unat_sub)
  then show ?thesis
    using assms by (simp add: and_high_bits [of s "2 ^ k - 1"] and_low_bits)
qed


lemma round_up_nat:
  assumes p: "0 < (p :: nat)"
  shows "((n + p - 1) div p) * p = (if n mod p = 0 then n else n - n mod p + p)"
proof (cases "n mod p = 0")
  case True
  then have "p dvd n" by (simp add: dvd_eq_mod_eq_0)
  then obtain q where n: "n = q * p" by (auto simp add: dvd_def mult.commute)
  have e: "n + p - 1 = (p - 1) + q * p" using p n by simp
  have "((p - 1) + q * p) div p = q + (p - 1) div p"
    using p by (intro div_mult_self1) simp
  moreover have "(p - 1) div p = 0" using p by simp
  ultimately have "(n + p - 1) div p = q" unfolding e by simp
  then show ?thesis using True n by simp
next
  case False
  define q where "q = n div p"
  define r where "r = n mod p"
  have n: "n = q * p + r" by (simp add: q_def r_def)
  have r: "0 < r" "r < p" using False p by (simp_all add: r_def)
  have e: "n + p - 1 = (r - 1) + (q + 1) * p" using n r by simp
  have "((r - 1) + (q + 1) * p) div p = (q + 1) + (r - 1) div p"
    using p by (intro div_mult_self1) simp
  moreover have "(r - 1) div p = 0" using r by simp
  ultimately have "(n + p - 1) div p = q + 1" unfolding e by simp
  moreover have "n - r = q * p" using n by simp
  then have "n - n mod p + p = (q + 1) * p" unfolding r_def by simp
  ultimately show ?thesis using False by simp
qed


lemma unat_pow2: "k < 32 \<Longrightarrow> unat (2 ^ k :: u32) = 2 ^ k"
proof -
  assume k: "k < 32"
  have "(2 ^ k :: u32) = of_nat (2 ^ k)" by simp
  then have "unat (2 ^ k :: u32) = 2 ^ k mod 2 ^ 32" by (simp only: unat_of_nat) simp
  moreover have "(2 :: nat) ^ k < 2 ^ 32"
    by (rule power_strict_increasing [OF k]) simp
  ultimately show ?thesis by simp
qed

lemma unat_round_up:
  assumes k: "k < 32" and fit: "unat (s :: u32) + 2 ^ k \<le> 2 ^ 32"
  shows "unat (if s AND (2 ^ k - 1) \<noteq> 0 then (s AND NOT (2 ^ k - 1)) + 2 ^ k else s)
         = ((unat s + 2 ^ k - 1) div 2 ^ k) * 2 ^ k"
proof -
  have p: "unat (2 ^ k :: u32) = 2 ^ k" using k by (rule unat_pow2)
  have pp: "(0 :: nat) < 2 ^ k" by simp
  have low: "s AND (2 ^ k - 1) = 0 \<longleftrightarrow> unat s mod 2 ^ k = 0"
    using and_low_bits [OF k, of s] by (simp add: unat_eq_zero [symmetric] del: unat_eq_zero)
  show ?thesis
  proof (cases "s AND (2 ^ k - 1) = 0")
    case True
    then have "unat s mod 2 ^ k = 0" using low by simp
    then have "((unat s + 2 ^ k - 1) div 2 ^ k) * 2 ^ k = unat s"
      by (simp only: round_up_nat [OF pp]) simp
    then show ?thesis using True by simp
  next
    case False
    then have r: "unat s mod 2 ^ k \<noteq> 0" using low by simp
    then have ru: "((unat s + 2 ^ k - 1) div 2 ^ k) * 2 ^ k = unat s - unat s mod 2 ^ k + 2 ^ k"
      by (simp only: round_up_nat [OF pp]) simp
    have d: "unat (s AND NOT (2 ^ k - 1)) = unat s - unat s mod 2 ^ k"
      by (rule unat_round_down [OF k])
    have "unat s mod 2 ^ k \<le> unat s" by simp
    with r fit have "unat s - unat s mod 2 ^ k + 2 ^ k < 2 ^ 32" by linarith
    then have "unat (s AND NOT (2 ^ k - 1)) + unat (2 ^ k :: u32) < 2 ^ LENGTH(32)"
      by (simp add: d p)
    then have "unat ((s AND NOT (2 ^ k - 1)) + 2 ^ k)
                = unat (s AND NOT (2 ^ k - 1)) + unat (2 ^ k :: u32)"
      by (simp only: unat_add_lem)
    then have "unat ((s AND NOT (2 ^ k - 1)) + 2 ^ k)
                = unat s - unat s mod 2 ^ k + 2 ^ k"
      by (simp only: d p)
    then have "unat ((s AND NOT (2 ^ k - 1)) + 2 ^ k)
                = ((unat s + 2 ^ k - 1) div 2 ^ k) * 2 ^ k"
      by (simp only: ru)
    then show ?thesis by (simp only: if_P [OF False])
  qed
qed

lemma normalize_size_floor:
  "CACHE_GRANULARITY \<le> normalize_size ps s \<and> ps \<le> normalize_size ps s
   \<and> 0 < normalize_size ps s"
proof -
  have a: "CACHE_GRANULARITY \<le> normalize_size ps s"
    by (auto simp add: normalize_size_def Let_def not_less)
  have b: "ps \<le> normalize_size ps s"
    by (simp add: normalize_size_def Let_def not_less)
  have "(0 :: u32) < CACHE_GRANULARITY" by (simp add: CACHE_GRANULARITY_def)
  then have "0 < normalize_size ps s" using a by (rule less_le_trans)
  with a b show ?thesis by simp
qed

lemma normalize_size_in_range:
  assumes k: "k < 32" and fit: "unat s + 2 ^ k \<le> 2 ^ 32"
  shows "2 ^ k dvd unat (normalize_size (2 ^ k) s)
         \<and> ((unat s + 2 ^ k - 1) div 2 ^ k) * 2 ^ k \<le> unat (normalize_size (2 ^ k) s)"
proof -
  let ?a1 = "if s AND (2 ^ k - 1) \<noteq> 0 then (s AND NOT (2 ^ k - 1)) + 2 ^ k else s"
  let ?a2 = "if ?a1 < CACHE_GRANULARITY then CACHE_GRANULARITY else ?a1"
  let ?a3 = "if ?a2 < 2 ^ k then 2 ^ k else ?a2"
  have n: "normalize_size (2 ^ k) s = ?a3" by (simp add: normalize_size_def Let_def)
  have p: "unat (2 ^ k :: u32) = 2 ^ k" using k by (rule unat_pow2)
  have u: "unat ?a1 = ((unat s + 2 ^ k - 1) div 2 ^ k) * 2 ^ k"
    by (rule unat_round_up [OF k fit])
  have d1: "(2 :: nat) ^ k dvd unat ?a1" unfolding u by simp
  have le: "?a1 \<le> ?a3" by (auto simp add: not_less)
  have d3: "(2 :: nat) ^ k dvd unat ?a3"
  proof (cases "?a2 < 2 ^ k")
    case True
    then show ?thesis by (simp add: p)
  next
    case False
    show ?thesis
    proof (cases "?a1 < CACHE_GRANULARITY")
      case a: False
      with False d1 show ?thesis by simp
    next
      case a: True
      with False have "(2 ^ k :: u32) \<le> CACHE_GRANULARITY" by (simp add: not_less)
      then have "unat (2 ^ k :: u32) \<le> unat CACHE_GRANULARITY"
        by (simp only: word_le_nat_alt)
      moreover have c: "unat CACHE_GRANULARITY = 2 ^ 20" by (simp add: CACHE_GRANULARITY_def)
      ultimately have "(2 :: nat) ^ k \<le> 2 ^ 20" by (simp only: p)
      then have "k \<le> 20" using power_le_imp_le_exp [of 2 k 20] by simp
      then have "(2 :: nat) ^ k dvd 2 ^ 20" by (rule le_imp_power_dvd)
      then have "(2 :: nat) ^ k dvd unat CACHE_GRANULARITY" by (simp only: c)
      then show ?thesis using a False by simp
    qed
  qed
  from le have "unat ?a1 \<le> unat ?a3" by (simp only: word_le_nat_alt)
  with d3 show ?thesis unfolding n u [symmetric] by simp
qed

text \<open>The equations that evaluate a call in a concrete environment.\<close>


lemma cleanup_releases_unselected:
  assumes ok: "env_ok os st"
  shows "(\<forall>i p. attempted os st a i \<and> memalign os i = Some p \<and> p \<noteq> 0
                \<and> i \<noteq> call_best os st a \<longrightarrow>
            released (call_log os st a) i p (call_allocSize os st a))
         \<and> (\<forall>e \<in> set (call_log os st a). is_release (snd e) \<longrightarrow> fst e \<noteq> call_best os st a)"
proof (intro conjI allI impI ballI)
  fix i p
  assume "attempted os st a i \<and> memalign os i = Some p \<and> p \<noteq> 0 \<and> i \<noteq> call_best os st a"
  then show "released (call_log os st a) i p (call_allocSize os st a)"
    using released_in_cleanup [OF ok, of a i p] by simp
next
  fix e assume "e \<in> set (call_log os st a)" "is_release (snd e)"
  then show "fst e \<noteq> call_best os st a" by (rule release_not_best)
qed


lemmas eval_defs = call_outcome_def call_log_def allocate_phys_mem_def run_trials_def
  init_traps_def lazy_init_def call_allocSize_def call_numTrials_def call_table_def
  normalize_size_def attempt_budget_def derive_cacheFriendlyFactor_def
  CACHE_GRANULARITY_def MAX_ATTEMPT_def fresh_statics_def Let_def
  attempt_def trials.simps walk.simps cleanup.simps
  call_verdict_def verdict_of_def call_best_def call_bestGap_def attempted_def env_ok_def
  call_ptr_def slot_ptr_def

lemma cff_is_mask:
  assumes "k < 32"
  shows "derive_cacheFriendlyFactor (2 ^ k) =
           mask (if k \<le> 19 then 20 - k else if k = 31 then 32 else 1)"
proof -
  from assms have "k \<in> {0, 1, 2, 3, 4, 5, 6, 7, 8, 9, 10, 11, 12, 13, 14, 15, 16, 17, 18, 19,
      20, 21, 22, 23, 24, 25, 26, 27, 28, 29, 30, 31}"
    by (simp only: insert_iff empty_iff) presburger
  then show ?thesis
    by (elim insertE emptyE)
       (simp_all add: derive_cacheFriendlyFactor_def CACHE_GRANULARITY_def mask_eq_decr_exp)
qed

lemma mask_test_iff:
  "j \<le> 32 \<Longrightarrow>
   (mask j AND (a OR b) = (0 :: u32)) \<longleftrightarrow>
   (unat (mask j :: u32) + 1) dvd unat a \<and> (unat (mask j :: u32) + 1) dvd unat b"
proof -
  assume j: "j \<le> 32"
  have "uint (mask j :: u32) = mask (min 32 j)"
    by (simp only: uint_mask_eq) simp
  also have "\<dots> = (2 ^ j - 1 :: int)"
    using j by (simp add: min_def mask_eq_exp_minus_1)
  finally have "uint (mask j :: u32) = 2 ^ j - 1" .
  then have "int (unat (mask j :: u32)) + 1 = int (2 ^ j)"
    by simp
  then have u: "unat (mask j :: u32) + 1 = 2 ^ j"
    by linarith
  have "(mask j AND (a OR b) = 0) \<longleftrightarrow> (a AND mask j = 0 \<and> b AND mask j = 0)"
    by (simp add: bit.conj_disj_distrib or_eq_0_iff and.commute)
  then show ?thesis
    unfolding u by (simp add: and_mask_dvd_nat)
qed


lemma walk_step:
  "page < n \<Longrightarrow> page \<noteq> 0 \<Longrightarrow>
   fst (walk os cff n t page prev_page g) =
     (if pagemap os t page \<noteq> prev_page + 1
      then (if cff AND ((prev_page + 1) OR pagemap os t page) \<noteq> 0 then Loop_left page g
            else fst (walk os cff n t (page + 1) (pagemap os t page) (g + 1)))
      else fst (walk os cff n t (page + 1) (pagemap os t page) g))"
  by (subst walk.simps) (simp add: Let_def)

lemma spec_score_step:
  "spec_score block prev_page (c # rest) g =
     (if c = prev_page + 1 then spec_score block c rest g
      else if block dvd unat (prev_page + 1) \<and> block dvd unat c
           then spec_score block c rest (g + 1)
      else None)"
  by (simp add: spec_classify_def)

lemma walk_refines:
  assumes m: "\<And>x y. (cff AND (x OR y) = 0) \<longleftrightarrow> (block dvd unat x \<and> block dvd unat y)"
    and p: "0 < page"
  shows "(case spec_score block prev_page (map (pagemap os t) [page .. n - 1]) g of
            Some g' \<Rightarrow> fst (walk os cff n t page prev_page g) = Loop_left (max page n) g'
          | None \<Rightarrow> (\<exists>q g'. fst (walk os cff n t page prev_page g) = Loop_left q g' \<and> q < n))"
  using m p
proof (induction os cff n t page prev_page g rule: walk.induct)
  case (1 os cff allocPages trial page prev_page pageGaps)
  note m = "1.prems"(1)
  let ?c = "pagemap os trial page"
  show ?case
  proof (cases "page < allocPages")
    case False
    then show ?thesis
      by (simp add: walk.simps [of os cff allocPages trial page] max_def)
  next
    case True
    then have l: "[page .. allocPages - 1] = page # [page + 1 .. allocPages - 1]"
      by (simp add: upto_rec1)
    have mx: "max (page + 1) allocPages = max page allocPages" using True by simp
    have p0: "page \<noteq> 0" and p1: "0 < page + 1" using "1.prems" by simp_all
    note W = walk_step [OF True p0, of os cff trial prev_page pageGaps]
    note S = spec_score_step [of block prev_page ?c
        "map (pagemap os trial) [page + 1 .. allocPages - 1]" pageGaps]
    show ?thesis
    proof (cases "?c = prev_page + 1")
      case c: True
      from "1.IH"(2) [OF True refl p0 _ m p1] c
      show ?thesis unfolding l list.map S W mx [symmetric] by simp
    next
      case c: False
      show ?thesis
      proof (cases "cff AND ((prev_page + 1) OR ?c) = 0")
        case z: True
        then have d: "block dvd unat (prev_page + 1) \<and> block dvd unat ?c" by (simp add: m)
        from "1.IH"(1) [OF True refl p0 c _ m p1] z
        show ?thesis unfolding l list.map S W mx [symmetric] using c d z by simp
      next
        case z: False
        then have d: "\<not> (block dvd unat (prev_page + 1) \<and> block dvd unat ?c)"
          by (simp add: m)
        show ?thesis unfolding l list.map S W using c d z True by auto
      qed
    qed
  qed
qed


lemma attempt_walks:
  assumes "slot_ptr os tbl t \<noteq> 0" and "mlock_ret os t = 0"
  shows "verdict_of os ps cff sz tbl t =
           (case fst (walk os cff (sint (sz div ps)) t 0 0 0) of
              Goto_error_exit \<Rightarrow> No_permission
            | Loop_left page pageGaps \<Rightarrow>
                if page = sint (sz div ps) then Qualified pageGaps else Disqualified)"
  using assms
  by (auto simp add: attempt_def verdict_of_def slot_ptr_def Let_def
      split: option.splits walk_exit.splits prod.splits)

lemma walk_first:
  "0 < n \<Longrightarrow> pagemap os t 0 \<noteq> 0 \<Longrightarrow>
   fst (walk os cff n t 0 prev_page g) = fst (walk os cff n t 1 (pagemap os t 0) g)"
  by (subst walk.simps) (simp add: Let_def)


section \<open>The claims\<close>

text \<open>C4. The claim: for every requested size, the normalised size is a positive multiple
  of the page size, at least \<open>CACHE_GRANULARITY\<close>, and at least the request rounded up
  to the page size. The code at 4 KiB pages and a request of \<open>2^32 - 1\<close> bytes: the
  rounding of line 92 wraps around to 0, and the normalised size is 1 MiB, far below the
  request.\<close>

theorem normalize_size_wraps:
  "normalize_size 4096 4294967295 = 1048576
   \<and> unat (normalize_size 4096 4294967295) < unat (4294967295 :: u32)"
  by (simp add: normalize_size_def CACHE_GRANULARITY_def)

text \<open>C8. When \<^verbatim>\<open>numTrials\<close> is 0, the call returns the null pointer and its log is
  empty: no call of \<^verbatim>\<open>posix_memalign\<close>, of \<^verbatim>\<open>mlock\<close> or of any other logged
  primitive is made.\<close>

theorem zero_budget_returns_null:
  assumes ok: "env_ok os st"
    and zero: "call_numTrials os st allocSize = 0"
  shows "call_outcome os st allocSize = Returned 0 \<and> call_log os st allocSize = []"
proof -
  have "run_trials os st allocSize = (0, start_state os st)"
    using zero by (simp add: run_trials_def start_state_def trials_done Let_def)
  then show ?thesis
    using allocate_ok [OF ok, of allocSize] zero
    by (simp add: call_cleanup_def call_unwind_def cleanup_neg)
qed

theorem zero_budget_witness:
  "env_ok os_small fresh_statics
   \<and> call_numTrials os_small fresh_statics 10 = 0
   \<and> call_outcome os_small fresh_statics 10 = Returned 0
   \<and> call_log os_small fresh_statics 10 = []"
proof -
  have h1: "env_ok os_small fresh_statics"
    by (simp add: env_ok_def init_traps_def os_small_def)
  have h2: "call_numTrials os_small fresh_statics 10 = 0"
    by (simp add: call_numTrials_def call_allocSize_def os_small_def fresh_statics_def
        lazy_init_def attempt_budget_def normalize_size_def CACHE_GRANULARITY_def
        MAX_ATTEMPT_def)
  show ?thesis
    using h1 h2 zero_budget_returns_null [OF h1 h2] by simp
qed

text \<open>C9. \<^verbatim>\<open>free_phys_mem\<close> calls \<^verbatim>\<open>munlock\<close>, then \<^verbatim>\<open>free\<close>, on the region it is
  given, and its return value is that of \<^verbatim>\<open>munlock\<close>: it is a failure code exactly
  when \<^verbatim>\<open>munlock\<close> reported one. On the null pointer the call is defined, releases
  nothing, and returns what \<^verbatim>\<open>munlock\<close> said; on a live block it is defined and
  releases the block.\<close>

theorem free_phys_mem_contract:
  "free_phys_mem munlock_ret live 0 allocSize =
     Some (munlock_ret 0 allocSize, live, [Munlock 0 allocSize, Free 0])
   \<and> (block \<in> live \<and> block \<noteq> 0 \<longrightarrow>
        free_phys_mem munlock_ret live block allocSize =
          Some (munlock_ret block allocSize, live - {block},
                [Munlock block allocSize, Free block]))
   \<and> (\<forall>err live' calls.
        free_phys_mem munlock_ret live block allocSize = Some (err, live', calls) \<longrightarrow>
          calls = [Munlock block allocSize, Free block]
          \<and> (err \<noteq> 0 \<longleftrightarrow> munlock_ret block allocSize \<noteq> 0))"
proof (intro conjI allI impI)
  show "free_phys_mem munlock_ret live 0 allocSize =
     Some (munlock_ret 0 allocSize, live, [Munlock 0 allocSize, Free 0])"
    by (rule free_phys_mem_null)
next
  assume "block \<in> live \<and> block \<noteq> 0"
  then show "free_phys_mem munlock_ret live block allocSize =
          Some (munlock_ret block allocSize, live - {block},
                [Munlock block allocSize, Free block])"
    by (simp add: free_phys_mem_live)
next
  fix err live' calls
  assume h: "free_phys_mem munlock_ret live block allocSize = Some (err, live', calls)"
  from free_phys_mem_result [OF h]
  show "calls = [Munlock block allocSize, Free block]" by simp
  from free_phys_mem_result [OF h]
  show "(err \<noteq> 0) = (munlock_ret block allocSize \<noteq> 0)" by simp
qed

theorem free_phys_mem_witness:
  "free_phys_mem munlock_null_fails {8192} 0 1048576 =
     Some (- 1, {8192}, [Munlock 0 1048576, Free 0])
   \<and> free_phys_mem munlock_null_fails {8192} 8192 1048576 =
     Some (0, {}, [Munlock 8192 1048576, Free 8192])"
proof -
  have m0: "munlock_null_fails 0 1048576 = - 1" by (simp add: munlock_null_fails_def)
  have m1: "munlock_null_fails 8192 1048576 = 0" by (simp add: munlock_null_fails_def)
  have l: "(8192::nat) \<in> {8192} \<and> (8192::nat) \<noteq> 0" by simp
  have d: "{8192::nat} - {8192} = {}" by simp
  note c = free_phys_mem_contract [of munlock_null_fails "{8192}" 1048576 8192]
  from c have "free_phys_mem munlock_null_fails {8192} 0 1048576 =
     Some (munlock_null_fails 0 1048576, {8192}, [Munlock 0 1048576, Free 0])"
    by (rule conjunct1)
  moreover from c l have "free_phys_mem munlock_null_fails {8192} 8192 1048576 =
          Some (munlock_null_fails 8192 1048576, {8192} - {8192},
                [Munlock 8192 1048576, Free 8192])"
    by (rule mp [OF conjunct1 [OF conjunct2]])
  ultimately show ?thesis unfolding m0 m1 d by (rule conjI)
qed

text \<open>C3. When some trial that was issued qualifies, the call returns the region of the
  trial \<open>call_best\<close>: an issued, qualifying trial whose gap count is the least among all
  issued qualifying trials, and the earliest of those with that gap count. The region it
  returns is not null.\<close>

theorem best_candidate_is_first_minimum:
  assumes ok: "env_ok os st"
    and att: "attempted os st a i"
    and qual: "call_verdict os st a i = Qualified g"
  shows "attempted os st a (call_best os st a)
         \<and> call_verdict os st a (call_best os st a) = Qualified (call_bestGap os st a)
         \<and> call_outcome os st a = Returned (call_ptr os st (call_best os st a))
         \<and> call_ptr os st (call_best os st a) \<noteq> 0
         \<and> (\<forall>j gj. attempted os st a j \<and> call_verdict os st a j = Qualified gj \<longrightarrow>
                call_bestGap os st a \<le> gj
                \<and> (gj = call_bestGap os st a \<longrightarrow> call_best os st a \<le> j))"
proof -
  have q: "qualifier os st a i g" using att qual by (simp add: qualifier_iff [OF ok])
  from run_best [of os st a] q
  have b: "qualifier os st a (call_best os st a) (call_bestGap os st a)"
    and p: "physBlock (snd (run_trials os st a)) = call_ptr os st (call_best os st a)"
    and m: "\<forall>i g. qualifier os st a i g \<longrightarrow>
            call_bestGap os st a \<le> g \<and> (g = call_bestGap os st a \<longrightarrow> call_best os st a \<le> i)"
    unfolding call_bestGap_def by blast+
  from b have b1: "attempted os st a (call_best os st a)"
    and b2: "call_verdict os st a (call_best os st a) = Qualified (call_bestGap os st a)"
    by (simp_all add: qualifier_iff [OF ok])
  from b2 have nz: "call_ptr os st (call_best os st a) \<noteq> 0"
    unfolding call_verdict_def call_ptr_def by (rule qualified_pinned [THEN conjunct1])
  from p have r: "call_outcome os st a = Returned (call_ptr os st (call_best os st a))"
    using allocate_ok [OF ok, of a] by simp
  from m have m': "\<forall>j gj. attempted os st a j \<and> call_verdict os st a j = Qualified gj \<longrightarrow>
                call_bestGap os st a \<le> gj
                \<and> (gj = call_bestGap os st a \<longrightarrow> call_best os st a \<le> j)"
    by (simp add: qualifier_iff [OF ok])
  from b1 b2 r nz m' show ?thesis by simp
qed

theorem best_candidate_witness:
  "env_ok os_three fresh_statics
   \<and> attempted os_three fresh_statics 2097152 2
   \<and> call_verdict os_three fresh_statics 2097152 2 = Qualified 1
   \<and> call_verdict os_three fresh_statics 2097152 1 = Qualified 1
   \<and> call_verdict os_three fresh_statics 2097152 0 = Qualified 2
   \<and> call_best os_three fresh_statics 2097152 = 1
   \<and> call_bestGap os_three fresh_statics 2097152 = 1
   \<and> call_outcome os_three fresh_statics 2097152 = Returned 4194304"
proof -
  have h1: "env_ok os_three fresh_statics" by (simp add: eval_defs os_three_def)
  have h2: "attempted os_three fresh_statics 2097152 2" by (simp add: eval_defs os_three_def)
  have h3: "call_verdict os_three fresh_statics 2097152 2 = Qualified 1"
    by (simp add: eval_defs os_three_def)
  have v0: "call_verdict os_three fresh_statics 2097152 0 = Qualified 2"
    by (simp add: eval_defs os_three_def)
  have b: "call_best os_three fresh_statics 2097152 = 1" by (simp add: eval_defs os_three_def)
  have g: "call_bestGap os_three fresh_statics 2097152 = 1"
    by (simp add: eval_defs os_three_def)
  have p: "call_ptr os_three fresh_statics 1 = 4194304" by (simp add: eval_defs os_three_def)
  note T = best_candidate_is_first_minimum [OF h1 h2 h3]
  from T have "call_verdict os_three fresh_statics 2097152 1 = Qualified 1"
    and "call_outcome os_three fresh_statics 2097152 = Returned 4194304"
    unfolding b g p by simp_all
  with h1 h2 h3 v0 b g show ?thesis by simp
qed

text \<open>C7. When an issued trial \<open>t\<close> qualifies with gap count 0, it is the selected
  candidate, its region is returned, and no trial after \<open>t\<close> is issued: every logged
  call, of \<^verbatim>\<open>posix_memalign\<close>, \<^verbatim>\<open>mlock\<close> or \<^verbatim>\<open>fread\<close> in particular, is for a slot up
  to \<open>t\<close>.\<close>

theorem perfect_trial_ends_search:
  assumes ok: "env_ok os st"
    and att: "attempted os st a t"
    and qual: "call_verdict os st a t = Qualified 0"
  shows "call_best os st a = t
         \<and> call_outcome os st a = Returned (call_ptr os st t)
         \<and> (\<forall>j. attempted os st a j \<longrightarrow> j \<le> t)
         \<and> (\<forall>e \<in> set (call_log os st a). fst e \<le> t)
         \<and> call_log os st a
             = concat (map (call_events os st a) [0 .. t]) @ call_cleanup os st a
         \<and> (\<forall>e \<in> set (call_cleanup os st a). is_release (snd e))"
proof -
  note L = perfect_is_last [OF ok att qual]
  from att have f: "fopen_ok os" and t0: "0 \<le> t" and tn: "t < call_numTrials os st a"
    by (simp_all add: attempted_iff [OF ok])
  from L t0 have nb: "call_best os st a \<noteq> - 1" by simp
  from best_pinned [OF ok nb] L
  have r: "call_outcome os st a = Returned (call_ptr os st t)" by simp
  have j: "\<forall>j. attempted os st a j \<longrightarrow> j \<le> t"
    using L by (simp add: attempted_iff [OF ok])
  have e: "\<forall>e \<in> set (call_log os st a). fst e \<le> t"
  proof
    fix e assume "e \<in> set (call_log os st a)"
    from log_cases [OF this] show "fst e \<le> t"
    proof
      assume "e \<in> set (trace (snd (run_trials os st a)))"
      then obtain i where "i \<le> fst (run_trials os st a)" "e \<in> set (call_events os st a i)"
        unfolding run_trace by blast
      then show ?thesis using call_events_slot [of e os st a i] L by simp
    next
      assume "e \<in> set (call_cleanup os st a)"
      then show ?thesis using unwind_range [of os st a] L
        unfolding call_cleanup_set by auto
    qed
  qed
  have u: "call_unwind os st a = t" using L tn by (simp add: call_unwind_def)
  have l: "call_log os st a
             = concat (map (call_events os st a) [0 .. t]) @ call_cleanup os st a"
    using allocate_ok [OF ok, of a] run_trace_list [OF f, of st a] u by simp
  have c: "\<forall>e \<in> set (call_cleanup os st a). is_release (snd e)"
    using cleanup_only_releases [of _ os st a] by blast
  from L r j e l c show ?thesis by simp
qed

theorem perfect_trial_witness:
  "env_ok os_two fresh_statics
   \<and> call_numTrials os_two fresh_statics 1048576 = 3
   \<and> attempted os_two fresh_statics 1048576 1
   \<and> call_verdict os_two fresh_statics 1048576 1 = Qualified 0
   \<and> call_best os_two fresh_statics 1048576 = 1
   \<and> call_outcome os_two fresh_statics 1048576 = Returned 4194304
   \<and> \<not> attempted os_two fresh_statics 1048576 2"
proof -
  have h1: "env_ok os_two fresh_statics" by (simp add: eval_defs os_two_def)
  have h2: "attempted os_two fresh_statics 1048576 1" by (simp add: eval_defs os_two_def)
  have h3: "call_verdict os_two fresh_statics 1048576 1 = Qualified 0"
    by (simp add: eval_defs os_two_def)
  have n: "call_numTrials os_two fresh_statics 1048576 = 3"
    by (simp add: eval_defs os_two_def)
  have p: "call_ptr os_two fresh_statics 1 = 4194304" by (simp add: eval_defs os_two_def)
  note T = perfect_trial_ends_search [OF h1 h2 h3]
  from T have "call_best os_two fresh_statics 1048576 = 1"
    and "call_outcome os_two fresh_statics 1048576 = Returned 4194304"
    and "\<not> attempted os_two fresh_statics 1048576 2"
    unfolding p by auto
  with h1 h2 h3 n show ?thesis by simp
qed

text \<open>C5. The claim: at the end of every call the regions of the trials that were not
  selected have been unpinned and released, and the region of the selected candidate is
  left allocated and pinned. The code in two successive calls: the first call releases
  the block at 4194304 and leaves that address in slot 1; in the second call
  \<^verbatim>\<open>posix_memalign\<close> gives the same block to trial 0, which qualifies with one gap and
  is selected, and fails for trial 1, so that slot 1 keeps the old address; the cleanup
  loop, which skips slot 0, calls \<^verbatim>\<open>munlock\<close> and \<^verbatim>\<open>free\<close> on the address of slot 1.
  The call returns 4194304, a block that is neither pinned nor live any more.\<close>

theorem selected_region_released_through_stale_slot:
  "call_log os_reuse_first fresh_statics 1048576 =
     [(0, Posix_memalign (Some 2097152)), (0, Mlock 2097152 1048576), (0, Fread 0), (0, Fread 1),
      (1, Posix_memalign (Some 4194304)), (1, Mlock 4194304 1048576), (1, Fread 0), (1, Fread 1),
      (1, Munlock 4194304 1048576), (1, Free 4194304),
      (0, Munlock 2097152 1048576), (0, Free 2097152)]
   \<and> blockArray statics_after_reuse_first 1 = 4194304
   \<and> call_log os_reuse_second statics_after_reuse_first 1048576 =
     [(0, Posix_memalign (Some 4194304)), (0, Mlock 4194304 1048576),
      (0, Fread 0), (0, Fread 1), (0, Fread 2), (0, Fread 3), (0, Fread 4), (0, Fread 5),
      (0, Fread 6), (0, Fread 7), (0, Fread 8), (0, Fread 9), (0, Fread 10), (0, Fread 11),
      (0, Fread 12), (0, Fread 13), (0, Fread 14), (0, Fread 15),
      (1, Posix_memalign None), (1, Mlock 4194304 1048576),
      (1, Fread 0), (1, Fread 1), (1, Fread 2), (1, Fread 3), (1, Fread 4), (1, Fread 5),
      (1, Fread 6), (1, Fread 7), (1, Fread 8), (1, Fread 9), (1, Fread 10), (1, Fread 11),
      (1, Fread 12), (1, Fread 13), (1, Fread 14), (1, Fread 15),
      (1, Munlock 4194304 1048576), (1, Free 4194304)]
   \<and> call_best os_reuse_second statics_after_reuse_first 1048576 = 0
   \<and> call_verdict os_reuse_second statics_after_reuse_first 1048576 0 = Qualified 1
   \<and> call_outcome os_reuse_second statics_after_reuse_first 1048576 = Returned 4194304
   \<and> replay {} (call_log os_reuse_first fresh_statics 1048576
                  @ call_log os_reuse_second statics_after_reuse_first 1048576) = Some {}"
proof -
  have a: "call_log os_reuse_first fresh_statics 1048576 =
     [(0, Posix_memalign (Some 2097152)), (0, Mlock 2097152 1048576), (0, Fread 0), (0, Fread 1),
      (1, Posix_memalign (Some 4194304)), (1, Mlock 4194304 1048576), (1, Fread 0), (1, Fread 1),
      (1, Munlock 4194304 1048576), (1, Free 4194304),
      (0, Munlock 2097152 1048576), (0, Free 2097152)]"
    by (simp add: eval_defs os_reuse_first_def)
  have b: "blockArray statics_after_reuse_first 1 = 4194304"
    by (simp add: statics_after_reuse_first_def eval_defs os_reuse_first_def)
  have c: "call_log os_reuse_second statics_after_reuse_first 1048576 =
     [(0, Posix_memalign (Some 4194304)), (0, Mlock 4194304 1048576),
      (0, Fread 0), (0, Fread 1), (0, Fread 2), (0, Fread 3), (0, Fread 4), (0, Fread 5),
      (0, Fread 6), (0, Fread 7), (0, Fread 8), (0, Fread 9), (0, Fread 10), (0, Fread 11),
      (0, Fread 12), (0, Fread 13), (0, Fread 14), (0, Fread 15),
      (1, Posix_memalign None), (1, Mlock 4194304 1048576),
      (1, Fread 0), (1, Fread 1), (1, Fread 2), (1, Fread 3), (1, Fread 4), (1, Fread 5),
      (1, Fread 6), (1, Fread 7), (1, Fread 8), (1, Fread 9), (1, Fread 10), (1, Fread 11),
      (1, Fread 12), (1, Fread 13), (1, Fread 14), (1, Fread 15),
      (1, Munlock 4194304 1048576), (1, Free 4194304)]"
    by (simp add: statics_after_reuse_first_def eval_defs os_reuse_first_def os_reuse_second_def)
  have d: "call_best os_reuse_second statics_after_reuse_first 1048576 = 0"
    by (simp add: statics_after_reuse_first_def eval_defs os_reuse_first_def os_reuse_second_def)
  have v: "call_verdict os_reuse_second statics_after_reuse_first 1048576 0 = Qualified 1"
    by (simp add: statics_after_reuse_first_def eval_defs os_reuse_first_def os_reuse_second_def)
  have e: "call_outcome os_reuse_second statics_after_reuse_first 1048576 = Returned 4194304"
    by (simp add: statics_after_reuse_first_def eval_defs os_reuse_first_def os_reuse_second_def)
  have f: "replay {} (call_log os_reuse_first fresh_statics 1048576
                  @ call_log os_reuse_second statics_after_reuse_first 1048576) = Some {}"
    unfolding a c by (simp add: c_free_def)
  from a b c d v e f show ?thesis by simp
qed




text \<open>C6. \<^verbatim>\<open>numTrials\<close> is between 0 and \<open>MAX_ATTEMPT\<close> and at most
  \<open>(avail div (allocSize div pageSize)) * 3 div 4\<close> in integer arithmetic, so the pages of
  all trials together are at most three quarters of the available pages; every logged
  call is for a slot in \<open>0 ..< numTrials\<close>, hence below \<open>MAX_ATTEMPT\<close>, the capacity of the
  table; the cleanup loop starts at an index below \<open>MAX_ATTEMPT\<close> and counts down to 0;
  and at most \<open>numTrials\<close> trials are issued.\<close>

theorem attempts_bounded:
  "0 \<le> call_numTrials os st a \<and> call_numTrials os st a \<le> MAX_ATTEMPT
   \<and> call_numTrials os st a
        \<le> (uint (sc_avphys_pages os)
             div (uint (call_allocSize os st a) div uint (pageSize (lazy_init os st)))) * 3 div 4
   \<and> 4 * call_numTrials os st a
         * (uint (call_allocSize os st a) div uint (pageSize (lazy_init os st)))
        \<le> 3 * uint (sc_avphys_pages os)
   \<and> (\<forall>e \<in> set (call_log os st a).
         0 \<le> fst e \<and> fst e < call_numTrials os st a \<and> fst e < MAX_ATTEMPT)
   \<and> call_unwind os st a < MAX_ATTEMPT
   \<and> card {i. attempted os st a i} \<le> nat (call_numTrials os st a)"
proof -
  note R = call_numTrials_range [of os st a]
  have le: "call_numTrials os st a
        \<le> (uint (sc_avphys_pages os)
             div (uint (call_allocSize os st a) div uint (pageSize (lazy_init os st)))) * 3 div 4"
    unfolding call_numTrials_def by (rule attempt_budget_le)
  have q: "4 * call_numTrials os st a
         * (uint (call_allocSize os st a) div uint (pageSize (lazy_init os st)))
        \<le> 3 * uint (sc_avphys_pages os)"
    using le
  proof (rule budget_three_quarters)
    show "0 \<le> uint (call_allocSize os st a) div uint (pageSize (lazy_init os st))"
      by (simp add: pos_imp_zdiv_nonneg_iff div_int_pos_iff)
    show "0 \<le> uint (sc_avphys_pages os)" by simp
    show "0 \<le> call_numTrials os st a" using R by simp
  qed
  have s: "\<forall>e \<in> set (call_log os st a).
         0 \<le> fst e \<and> fst e < call_numTrials os st a \<and> fst e < MAX_ATTEMPT"
    using log_slots [of _ os st a] R by fastforce
  have "{i. attempted os st a i} \<subseteq> {0 ..< call_numTrials os st a}"
    using log_slots [of _ os st a] by (fastforce simp add: attempted_def)
  then have "card {i. attempted os st a i} \<le> card {0 ..< call_numTrials os st a}"
    by (intro card_mono) simp_all
  then have c: "card {i. attempted os st a i} \<le> nat (call_numTrials os st a)" by simp
  have u: "call_unwind os st a < MAX_ATTEMPT"
    using unwind_range [of os st a] R by simp
  from R le q s u c show ?thesis by simp
qed

theorem attempts_bounded_witness:
  "call_numTrials os_two fresh_statics 1048576 = 3
   \<and> (1, Fread 0) \<in> set (call_log os_two fresh_statics 1048576)
   \<and> (1::int) < MAX_ATTEMPT
   \<and> card {i. attempted os_two fresh_statics 1048576 i} \<le> 3"
proof -
  have n: "call_numTrials os_two fresh_statics 1048576 = 3"
    by (simp add: eval_defs os_two_def)
  have e: "(1, Fread 0) \<in> set (call_log os_two fresh_statics 1048576)"
    by (simp add: eval_defs os_two_def)
  note T = attempts_bounded [of os_two fresh_statics 1048576]
  from T e have "fst (1 :: int, Fread 0) < MAX_ATTEMPT" by blast
  moreover from T have "card {i. attempted os_two fresh_statics 1048576 i}
      \<le> nat (call_numTrials os_two fresh_statics 1048576)" by simp
  ultimately show ?thesis using n e by simp
qed

text \<open>C2. For a power-of-two page size, a trial whose region was allocated and pinned and
  whose first frame is not 0 gets the verdict that the specification's scorer gives for
  its frame sequence: each transition with \<open>curr = prev + 1\<close> records nothing, each other
  transition with \<open>prev + 1\<close> and \<open>curr\<close> both multiples of \<open>cacheFriendlyFactor + 1\<close>
  records one gap, and any other transition disqualifies the trial. The mask test of the
  code, \<open>cacheFriendlyFactor AND ((prev + 1) OR curr) = 0\<close>, is that divisibility.\<close>

theorem scorer_refines_spec:
  assumes ps: "ps = 2 ^ k" and k: "k < 32"
    and alloc: "slot_ptr os tbl t \<noteq> 0" and pin: "mlock_ret os t = 0"
    and first: "pagemap os t 0 \<noteq> 0"
    and pages: "0 < sint (sz div ps)"
  shows "verdict_of os ps (derive_cacheFriendlyFactor ps) sz tbl t =
           (case spec_score (unat (derive_cacheFriendlyFactor ps) + 1) (pagemap os t 0)
                   (map (pagemap os t) [1 .. sint (sz div ps) - 1]) 0 of
              Some g \<Rightarrow> Qualified g
            | None \<Rightarrow> Disqualified)
         \<and> (\<forall>prev_page curr_page.
               (derive_cacheFriendlyFactor ps AND ((prev_page + 1) OR curr_page) = 0) \<longleftrightarrow>
               ((unat (derive_cacheFriendlyFactor ps) + 1) dvd unat (prev_page + 1)
                \<and> (unat (derive_cacheFriendlyFactor ps) + 1) dvd unat curr_page))"
proof -
  let ?cff = "derive_cacheFriendlyFactor ps"
  let ?n = "sint (sz div ps)"
  let ?j = "if k \<le> 19 then 20 - k else if k = 31 then 32 else 1"
  have c: "?cff = mask ?j" unfolding ps by (rule cff_is_mask [OF k])
  have j: "?j \<le> 32" by auto
  have m: "\<And>x y. (?cff AND (x OR y) = 0) \<longleftrightarrow>
             ((unat ?cff + 1) dvd unat x \<and> (unat ?cff + 1) dvd unat y)"
    unfolding c by (rule mask_test_iff [OF j])
  have mx: "max 1 ?n = ?n" using pages by simp
  note R = walk_refines [where cff = ?cff and block = "unat ?cff + 1" and page = 1
      and prev_page = "pagemap os t 0" and os = os and t = t and n = ?n and g = 0,
      OF m, simplified mx]
  note V = attempt_walks [OF alloc pin, where ps = ps and cff = ?cff and sz = sz]
  note F = walk_first [OF pages first, where cff = ?cff and prev_page = 0 and g = 0]
  have v: "verdict_of os ps ?cff sz tbl t =
           (case spec_score (unat ?cff + 1) (pagemap os t 0)
                   (map (pagemap os t) [1 .. ?n - 1]) 0 of
              Some g \<Rightarrow> Qualified g
            | None \<Rightarrow> Disqualified)"
  proof (cases "spec_score (unat ?cff + 1) (pagemap os t 0) (map (pagemap os t) [1 .. ?n - 1]) 0")
    case None
    with R obtain q g' where "fst (walk os ?cff ?n t 1 (pagemap os t 0) 0) = Loop_left q g'"
      and "q < ?n" by auto
    then show ?thesis unfolding V F None by simp
  next
    case (Some g)
    with R have "fst (walk os ?cff ?n t 1 (pagemap os t 0) 0) = Loop_left ?n g" by simp
    then show ?thesis unfolding V F Some by simp
  qed
  from v m show ?thesis by blast
qed

theorem scorer_witness:
  "verdict_of os_three 65536 15 2097152 (\<lambda>i. 0) 0 = Qualified 2
   \<and> spec_score 16 31 (map (pagemap os_three 0) [1 .. 31]) 0 = Some 2
   \<and> derive_cacheFriendlyFactor 65536 = 15"
proof -
  have h1: "(65536 :: u32) = 2 ^ 16" by simp
  have h2: "(16 :: nat) < 32" by simp
  have h3: "slot_ptr os_three (\<lambda>i. 0) 0 \<noteq> 0" by (simp add: slot_ptr_def os_three_def)
  have h4: "mlock_ret os_three 0 = 0" by (simp add: os_three_def)
  have h5: "pagemap os_three 0 0 \<noteq> 0" by (simp add: os_three_def)
  have h6: "0 < sint (2097152 div 65536 :: u32)" by simp
  have c: "derive_cacheFriendlyFactor 65536 = 15"
    by (simp add: derive_cacheFriendlyFactor_def CACHE_GRANULARITY_def)
  have n: "sint (2097152 div 65536 :: u32) - 1 = 31" by simp
  have s: "spec_score 16 31 (map (pagemap os_three 0) [1 .. 31]) 0 = Some 2"
    by (simp add: os_three_def spec_classify_def upto.simps)
  note T = scorer_refines_spec [OF h1 h2 h3 h4 h5 h6]
  have f: "pagemap os_three 0 0 = 31" by (simp add: os_three_def)
  from T have "verdict_of os_three 65536 15 2097152 (\<lambda>i. 0) 0 = Qualified 2"
    unfolding c n f by (simp add: s)
  with s c show ?thesis by simp
qed

text \<open>C10. The claim: the cleanup loop visits only slots written during the current call,
  so no pointer left in the table by an earlier call is unpinned or released. The code
  in two successive calls: the first call leaves the released address 4194304 in slot
  1; in the second call \<^verbatim>\<open>posix_memalign\<close> fails at trial 1 and stores nothing, the
  test \<^verbatim>\<open>blockArray[trial] == 0\<close> of line 139 sees the old address, \<^verbatim>\<open>mlock\<close> is called
  on it, and the cleanup loop calls \<^verbatim>\<open>munlock\<close> and \<^verbatim>\<open>free\<close> on it: a second
  \<^verbatim>\<open>free\<close> of a block that is no longer live.\<close>

theorem stale_slot_is_released_again:
  "call_log os_stale_first fresh_statics 1048576 =
     [(0, Posix_memalign (Some 2097152)), (0, Mlock 2097152 1048576), (0, Fread 0), (0, Fread 1),
      (1, Posix_memalign (Some 4194304)), (1, Mlock 4194304 1048576), (1, Fread 0), (1, Fread 1),
      (1, Munlock 4194304 1048576), (1, Free 4194304),
      (0, Munlock 2097152 1048576), (0, Free 2097152)]
   \<and> blockArray statics_after_first 1 = 4194304
   \<and> call_log os_stale_second statics_after_first 1048576 =
     [(0, Posix_memalign (Some 6291456)), (0, Mlock 6291456 1048576), (0, Fread 0), (0, Fread 1),
      (1, Posix_memalign None), (1, Mlock 4194304 1048576),
      (1, Munlock 4194304 1048576), (1, Free 4194304),
      (0, Munlock 6291456 1048576), (0, Free 6291456)]
   \<and> replay {} (call_log os_stale_first fresh_statics 1048576) = Some {}
   \<and> replay {} (call_log os_stale_first fresh_statics 1048576
                  @ call_log os_stale_second statics_after_first 1048576) = None"
proof -
  have a: "call_log os_stale_first fresh_statics 1048576 =
     [(0, Posix_memalign (Some 2097152)), (0, Mlock 2097152 1048576), (0, Fread 0), (0, Fread 1),
      (1, Posix_memalign (Some 4194304)), (1, Mlock 4194304 1048576), (1, Fread 0), (1, Fread 1),
      (1, Munlock 4194304 1048576), (1, Free 4194304),
      (0, Munlock 2097152 1048576), (0, Free 2097152)]"
    by (simp add: eval_defs os_stale_first_def)
  have b: "blockArray statics_after_first 1 = 4194304"
    by (simp add: statics_after_first_def eval_defs os_stale_first_def)
  have c: "call_log os_stale_second statics_after_first 1048576 =
     [(0, Posix_memalign (Some 6291456)), (0, Mlock 6291456 1048576), (0, Fread 0), (0, Fread 1),
      (1, Posix_memalign None), (1, Mlock 4194304 1048576),
      (1, Munlock 4194304 1048576), (1, Free 4194304),
      (0, Munlock 6291456 1048576), (0, Free 6291456)]"
    by (simp add: statics_after_first_def eval_defs os_stale_first_def os_stale_second_def)
  have d: "replay {} (call_log os_stale_first fresh_statics 1048576) = Some {}"
    unfolding a by (simp add: c_free_def)
  have e: "replay {} (call_log os_stale_first fresh_statics 1048576
                  @ call_log os_stale_second statics_after_first 1048576) = None"
    unfolding a c by (simp add: c_free_def)
  from a b c d e show ?thesis by simp
qed

end
